theory Spec2Isabelle
  imports Main "HOL-Library.Word"
begin

unbundle bit_operations_syntax

section \<open>The loop3 protocol engine (protocol.go)\<close>

subsection \<open>Machine types and errors\<close>

type_synonym byte = "8 word"

text \<open>
  Go's \<open>uint32\<close> is a 32-bit word. Go's \<open>int32\<close> is the same word read with
  \<^const>\<open>sint\<close>. Go's \<open>int\<close> (64 bits on the platforms the tool is built for) is
  modelled as \<^typ>\<open>int\<close>; every narrowing conversion of the source is written out.
\<close>

type_synonym uint32 = "32 word"
type_synonym int32 = "32 word"

text \<open>
  The error values that protocol.go creates, the two errors of package \<open>io\<close> that
  \<open>io.ReadFull\<close> returns, and \<open>External\<close> for the errors of collaborators
  (connection, serializer) whose text the source never inspects.
\<close>

datatype err =
    EOF
  | ErrUnexpectedEOF
  | External string
  | ShortMagicHeaderRead nat nat
  | BadHeader "byte list" "byte list"
  | ShortLengthRead nat
  | ShortDataRead nat int
  | ShortMagicHeaderWrite
  | ShortLengthWrite
  | ShortDataWrite
  | MismatchedHashes
  | SequenceMismatch uint32 uint32

definition MagicHeader :: "byte list" where
  "MagicHeader = [0xCA, 0xFE, 0xF0, 0x0D]"

subsection \<open>The connection as the source uses it\<close>

text \<open>
  The read side of \<open>p.peer\<close>: the bytes that will still arrive, and the error the
  connection reports once they are used up (\<^const>\<open>EOF\<close> when the peer closed normally).
\<close>

record reader =
  pending :: "byte list"
  at_end :: err

text \<open>
  \<open>io.ReadFull(r, buf)\<close> with \<open>len(buf) = n\<close>: returns the number of bytes copied, the
  buffer and the error. An empty buffer is filled without reading. A stream that ends
  before the first byte gives the stream's own error, one that ends at \<^const>\<open>EOF\<close> after
  some but not all bytes gives \<^const>\<open>ErrUnexpectedEOF\<close>. The unread part of the buffer
  keeps the zero bytes of \<open>make\<close>.
\<close>

definition ReadFull :: "reader \<Rightarrow> nat \<Rightarrow> (nat \<times> byte list \<times> err option) \<times> reader" where
  "ReadFull r n =
     (if n \<le> length (pending r)
      then ((n, take n (pending r), None), r\<lparr>pending := drop n (pending r)\<rparr>)
      else
        (let k = length (pending r);
             buf = pending r @ replicate (n - k) 0;
             e = (if at_end r = EOF \<and> 0 < k then ErrUnexpectedEOF else at_end r)
         in ((k, buf, Some e), r\<lparr>pending := []\<rparr>)))"

text \<open>
  The write side of \<open>p.peer\<close>: the bytes accepted so far, and a script of what the next
  calls of \<open>Write\<close> answer, as (bytes accepted, error). With the script used up a call
  accepts everything.
\<close>

record writer =
  written :: "byte list"
  script :: "(nat \<times> err option) list"

definition Write :: "writer \<Rightarrow> byte list \<Rightarrow> (nat \<times> err option) \<times> writer" where
  "Write w bs =
     (case script w of
        [] \<Rightarrow> ((length bs, None), w\<lparr>written := written w @ bs\<rparr>)
      | (n, e) # rest \<Rightarrow>
          (let k = min n (length bs)
           in ((k, e), w\<lparr>written := written w @ take k bs, script := rest\<rparr>)))"

text \<open>The three parts of the answer of the next \<open>Write\<close>, named for the statements below.\<close>

definition accepted :: "writer \<Rightarrow> byte list \<Rightarrow> nat" where
  "accepted w bs = fst (fst (Write w bs))"

definition reported :: "writer \<Rightarrow> byte list \<Rightarrow> err option" where
  "reported w bs = snd (fst (Write w bs))"

definition after_write :: "writer \<Rightarrow> byte list \<Rightarrow> writer" where
  "after_write w bs = snd (Write w bs)"

subsection \<open>encoding/binary, little endian\<close>

text \<open>\<open>binary.LittleEndian.PutUint32\<close> and \<open>binary.LittleEndian.Uint32\<close>.\<close>

definition PutUint32 :: "uint32 \<Rightarrow> byte list" where
  "PutUint32 v = [ucast v, ucast (drop_bit 8 v), ucast (drop_bit 16 v), ucast (drop_bit 24 v)]"

fun Uint32 :: "byte list \<Rightarrow> uint32" where
  "Uint32 (b0 # b1 # b2 # b3 # _) =
     ucast b0 OR push_bit 8 (ucast b1) OR push_bit 16 (ucast b2) OR push_bit 24 (ucast b3)"
| "Uint32 _ = 0"

text \<open>
  The unsigned little-endian value of a byte string, as the wire format of the
  specification words it: the first byte is the least significant.
\<close>

fun le_unsigned :: "byte list \<Rightarrow> nat" where
  "le_unsigned [] = 0"
| "le_unsigned (b # bs) = unat b + 256 * le_unsigned bs"

subsection \<open>Writing a frame\<close>

definition txMagicHeader :: "writer \<Rightarrow> err option \<times> writer" where
  "txMagicHeader w =
     (case Write w MagicHeader of
        ((n, Some e), w') \<Rightarrow> (Some e, w')
      | ((n, None), w') \<Rightarrow>
          if n \<noteq> length MagicHeader then (Some ShortMagicHeaderWrite, w') else (None, w'))"

text \<open>\<open>length\<close> is a Go \<open>int\<close>; \<open>uint32(length)\<close> keeps its low 32 bits.\<close>

definition txLength :: "writer \<Rightarrow> int \<Rightarrow> err option \<times> writer" where
  "txLength w len =
     (let out = PutUint32 (word_of_int len)
      in case Write w out of
           ((n, Some e), w') \<Rightarrow> (Some e, w')
         | ((n, None), w') \<Rightarrow>
             if n \<noteq> 4 then (Some ShortLengthWrite, w') else (None, w'))"

text \<open>
  \<open>txPb\<close>; \<open>Marshal\<close> stands for \<open>proto.Marshal\<close>, the serializer of the messages, which
  the engine treats as opaque.
\<close>

definition txPb :: "('m \<Rightarrow> err + byte list) \<Rightarrow> writer \<Rightarrow> 'm \<Rightarrow> err option \<times> writer" where
  "txPb Marshal w pb =
     (case Marshal pb of
        Inl e \<Rightarrow> (Some e, w)
      | Inr data \<Rightarrow>
          (case txMagicHeader w of
             (Some e, w1) \<Rightarrow> (Some e, w1)
           | (None, w1) \<Rightarrow>
               (case txLength w1 (int (length data)) of
                  (Some e, w2) \<Rightarrow> (Some e, w2)
                | (None, w2) \<Rightarrow>
                    (case Write w2 data of
                       ((n, Some e), w3) \<Rightarrow> (Some e, w3)
                     | ((n, None), w3) \<Rightarrow>
                         if n \<noteq> length data then (Some ShortDataWrite, w3)
                         else (None, w3)))))"

subsection \<open>Reading a frame\<close>

definition rxMagicHeader :: "reader \<Rightarrow> err option \<times> reader" where
  "rxMagicHeader r =
     (case ReadFull r (length MagicHeader) of
        ((n, data, Some e), r') \<Rightarrow> (Some e, r')
      | ((n, data, None), r') \<Rightarrow>
          if n \<noteq> length data then (Some (ShortMagicHeaderRead n (length data)), r')
          else if MagicHeader \<noteq> data then (Some (BadHeader data MagicHeader), r')
          else (None, r'))"

text \<open>
  \<open>rxLength\<close>: \<open>binary.Read\<close> into a variable of type \<open>int32\<close> decodes the four bytes
  with \<open>LittleEndian.Uint32\<close> and converts the result to \<open>int32\<close>; on a buffer of four
  bytes it cannot fail. The function returns \<open>int(length)\<close>.
\<close>

definition rxLength :: "reader \<Rightarrow> (int \<times> err option) \<times> reader" where
  "rxLength r =
     (case ReadFull r 4 of
        ((n, data, Some e), r') \<Rightarrow> ((- 1, Some e), r')
      | ((n, data, None), r') \<Rightarrow>
          if n \<noteq> 4 then ((- 1, Some (ShortLengthRead n)), r')
          else ((sint (Uint32 data), None), r'))"

text \<open>
  What a call of \<open>rxPb\<close> ends with: the decoded message, an error, or a panic.
  \<open>make([]byte, length)\<close> panics for a negative length; the deferred function logs the
  length and panics again, so the panic leaves \<open>rxPb\<close> with the logged length.
\<close>

datatype 'm rx_result = Decoded 'm | Failed err | Panicked int

definition rxPb :: "(byte list \<Rightarrow> err + 'm) \<Rightarrow> reader \<Rightarrow> 'm rx_result \<times> reader" where
  "rxPb Unmarshal r =
     (case rxMagicHeader r of
        (Some e, r1) \<Rightarrow> (Failed e, r1)
      | (None, r1) \<Rightarrow>
          (case rxLength r1 of
             ((len, Some e), r2) \<Rightarrow> (Failed e, r2)
           | ((len, None), r2) \<Rightarrow>
               if len < 0 then (Panicked len, r2)
               else
                 (case ReadFull r2 (nat len) of
                    ((n, data, Some e), r3) \<Rightarrow> (Failed e, r3)
                  | ((n, data, None), r3) \<Rightarrow>
                      if int n \<noteq> len then (Failed (ShortDataRead n len), r3)
                      else
                        (case Unmarshal data of
                           Inl e \<Rightarrow> (Failed e, r3)
                         | Inr m \<Rightarrow> (Decoded m, r3)))))"


subsection \<open>Blocks, the test descriptor and the protocol state\<close>

datatype BlockType = BlockTypePlain | BlockTypeLatencyRequest | BlockTypeLatencyResponse

text \<open>\<open>time.Time\<close> as nanoseconds since the Unix epoch; \<open>time.Duration\<close> counts nanoseconds.\<close>

type_synonym time = int

text \<open>
  Modelled from the spec: the struct \<open>Block\<close> is declared in block.go, which is not among
  the sources. The specification gives its fields: sequence number (unsigned 32-bit), type,
  payload bytes, content hash and timestamp; protocol.go reads and writes them under the
  names used here.
\<close>

record Block =
  Sequence :: uint32
  Type :: BlockType
  Data :: "byte list"
  Hash :: "byte list"
  Timestamp :: time

text \<open>
  Modelled from the spec: the message \<open>loop3_pb.Test\<close> is generated code that is not
  among the sources. protocol.go compares its counts with \<open>int32\<close> counters, so the
  numeric fields are \<open>int32\<close>.
\<close>

record Test =
  Name :: string
  TxRequests :: int32
  RxRequests :: int32
  PayloadMinBytes :: int32
  PayloadMaxBytes :: int32
  LatencyFrequency :: int32
  TxPacing :: int32
  TxMaxJitter :: int32
  RxTimeout :: int32

datatype log_entry =
    LogDebug string
  | LogInfo string
  | LogWarn string
  | LogError string
  | LogErr err
  | LogSendError err
  | LogRxTimeout int int int int

text \<open>
  The struct \<open>protocol\<close>. Of \<open>peer\<close> the loops below use only \<open>Close\<close>: \<open>peer_closed\<close>
  records that it was called and \<open>peer_close_err\<close> is what it answers. The buffered
  channels \<open>latencies\<close> (capacity 1024) and \<open>errors\<close> (capacity 10240) are queues, oldest
  element first. The unbuffered channel \<open>rxBlocks\<close> is the list of the blocks the Receive
  Loop has handed over, with the flag set by \<open>close\<close>. \<open>logged\<close> collects what the loops
  write to the log.
\<close>

record protocol =
  rxSequence :: uint32
  peer_closed :: bool
  peer_close_err :: "err option"
  rxBlocks :: "Block list"
  rxBlocks_closed :: bool
  txCount :: int32
  rxCount :: int32
  lastRx :: int
  latencies :: "time list"
  errors :: "err list"
  logged :: "log_entry list"

definition newProtocol :: "err option \<Rightarrow> protocol" where
  "newProtocol close_answer =
     \<lparr>rxSequence = 0, peer_closed = False, peer_close_err = close_answer,
      rxBlocks = [], rxBlocks_closed = False, txCount = 0, rxCount = 0, lastRx = 0,
      latencies = [], errors = [], logged = []\<rparr>"

text \<open>
  How far a loop has come on the events given to it: it waits for its next event, it has
  returned, or it is stuck for good in a send on a full channel.
\<close>

datatype status = Running | Returned | Blocked

definition log_add :: "protocol \<Rightarrow> log_entry \<Rightarrow> protocol" where
  "log_add p l = p\<lparr>logged := logged p @ [l]\<rparr>"

text \<open>\<open>p.errors <- err\<close>: the send blocks while the channel holds 10240 errors.\<close>

definition send_error :: "protocol \<Rightarrow> err \<Rightarrow> protocol option" where
  "send_error p e =
     (if length (errors p) < 10240 then Some (p\<lparr>errors := errors p @ [e]\<rparr>) else None)"

text \<open>\<open>if closeErr := p.peer.Close(); closeErr != nil { log.Error(closeErr) }\<close>\<close>

definition close_peer :: "protocol \<Rightarrow> protocol" where
  "close_peer p =
     (let p' = p\<lparr>peer_closed := True\<rparr>
      in case peer_close_err p of None \<Rightarrow> p' | Some closeErr \<Rightarrow> log_add p' (LogErr closeErr))"

subsection \<open>encoding/hex\<close>

definition hextable :: string where
  "hextable = ''0123456789abcdef''"

definition EncodeToString :: "byte list \<Rightarrow> string" where
  "EncodeToString src =
     concat (map (\<lambda>v. [hextable ! unat (drop_bit 4 v), hextable ! unat (v AND 0x0f)]) src)"

subsection \<open>The Verifier\<close>

text \<open>
  What the \<open>select\<close> of the Verifier can take: a receive from \<open>rxBlocks\<close> (\<open>None\<close> is the
  nil of the closed channel), or the timer of \<open>time.After\<close>, with the reading of
  \<open>info.NowInMilliseconds()\<close> taken in that branch.
\<close>

datatype vevent = Recv "Block option" | TimeAfter int

text \<open>
  One pass of the \<open>for\<close> loop of \<open>verifier\<close>. \<open>sha512\<close> stands for \<open>sha512.Sum512\<close>.
  The two failing branches send the error, close the peer, log the error and return.
  The timer branch logs and returns; its sending of an error and its closing of the peer
  are commented out in the source.
\<close>

fun verifier_iter :: "(byte list \<Rightarrow> byte list) \<Rightarrow> Test \<Rightarrow> protocol \<Rightarrow> vevent \<Rightarrow> protocol \<times> status" where
  "verifier_iter sha512 t p (Recv (Some block)) =
     (if Sequence block = rxSequence p then
        (if EncodeToString (sha512 (Data block)) \<noteq> EncodeToString (Hash block) then
           (case send_error p MismatchedHashes of
              None \<Rightarrow> (p, Blocked)
            | Some p1 \<Rightarrow> (log_add (close_peer p1) (LogErr MismatchedHashes), Returned))
         else (p\<lparr>rxSequence := rxSequence p + 1\<rparr>, Running))
      else
        (let e = SequenceMismatch (rxSequence p) (Sequence block)
         in case send_error p e of
              None \<Rightarrow> (p, Blocked)
            | Some p1 \<Rightarrow> (log_add (close_peer p1) (LogErr e), Returned)))"
| "verifier_iter sha512 t p (Recv None) = (p, Returned)"
| "verifier_iter sha512 t p (TimeAfter now) =
     (log_add p (LogRxTimeout (sint (RxTimeout t)) (now - lastRx p)
                   (sint (txCount p)) (sint (rxCount p))), Returned)"

fun verifier_loop :: "(byte list \<Rightarrow> byte list) \<Rightarrow> Test \<Rightarrow> protocol \<Rightarrow> vevent list \<Rightarrow> protocol \<times> status" where
  "verifier_loop sha512 t p [] = (p, Running)"
| "verifier_loop sha512 t p (ev # evs) =
     (case verifier_iter sha512 t p ev of
        (p', Running) \<Rightarrow> verifier_loop sha512 t p' evs
      | (p', st) \<Rightarrow> (p', st))"

text \<open>\<open>verifier\<close> with its first log line and its deferred one.\<close>

definition verifier :: "(byte list \<Rightarrow> byte list) \<Rightarrow> Test \<Rightarrow> protocol \<Rightarrow> vevent list \<Rightarrow> protocol \<times> status" where
  "verifier sha512 t p evs =
     (case verifier_loop sha512 t (log_add p (LogDebug ''started'')) evs of
        (p', Returned) \<Rightarrow> (log_add p' (LogDebug ''complete''), Returned)
      | (p', st) \<Rightarrow> (p', st))"

text \<open>
  The blocks that reach the Verifier on a list of events: those received before the
  channel is closed or the timer fires.
\<close>

fun received :: "vevent list \<Rightarrow> Block list" where
  "received (Recv (Some b) # evs) = b # received evs"
| "received _ = []"

subsection \<open>The end of run\<close>

text \<open>
  \<open>run\<close> starts the generator, the Receive Loop, the Verifier (when \<open>RxRequests > 0\<close>) and
  the Transmit Loop, waits for \<open>rxerDone\<close> and \<open>txerDone\<close>, and then decides its result
  from the channel of errors alone. \<open>run_result\<close> is that last step, on the state the
  loops have left.
\<close>

definition run_result :: "protocol \<Rightarrow> err option \<times> protocol" where
  "run_result p =
     (if 0 < length (errors p) then (Some (hd (errors p)), p\<lparr>errors := tl (errors p)\<rparr>)
      else (None, p))"

subsection \<open>The Receive Loop\<close>

text \<open>
  One pass of the loop of \<open>rxer\<close> takes the result of \<open>p.rxBlock()\<close> and the reading of
  \<open>info.NowInMilliseconds()\<close>. The send on \<open>latencies\<close> is the non-blocking one of the
  \<open>select\<close> with a \<open>default\<close>. The hand-over \<open>p.rxBlocks <- block\<close> is recorded in
  \<open>rxBlocks\<close>; it completes when the Verifier takes the block.
\<close>

datatype rxevent = RxBlock "err + Block" int

fun rxer_iter :: "Test \<Rightarrow> protocol \<Rightarrow> rxevent \<Rightarrow> protocol \<times> status" where
  "rxer_iter t p (RxBlock (Inl e) now) =
     (case send_error p e of
        None \<Rightarrow> (p, Blocked)
      | Some p1 \<Rightarrow> (log_add p1 (LogErr e), Returned))"
| "rxer_iter t p (RxBlock (Inr block) now) =
     (let p1 = (if Type block = BlockTypeLatencyRequest then
                  (if length (latencies p) < 1024
                   then p\<lparr>latencies := latencies p @ [Timestamp block]\<rparr>
                   else log_add p (LogWarn ''latency channel out of room''))
                else p);
          p2 = p1\<lparr>rxCount := rxCount p1 + 1\<rparr>;
          p3 = p2\<lparr>lastRx := now\<rparr>
      in (p3\<lparr>rxBlocks := rxBlocks p3 @ [block]\<rparr>, Running))"

fun rxer_loop :: "Test \<Rightarrow> protocol \<Rightarrow> rxevent list \<Rightarrow> protocol \<times> status" where
  "rxer_loop t p [] =
     (if rxCount p <s RxRequests t then (p, Running)
      else (log_add (p\<lparr>rxBlocks_closed := True\<rparr>) (LogInfo ''rx count reached''), Returned))"
| "rxer_loop t p (ev # evs) =
     (if rxCount p <s RxRequests t then
        (case rxer_iter t p ev of
           (p', Running) \<Rightarrow> rxer_loop t p' evs
         | (p', st) \<Rightarrow> (p', st))
      else (log_add (p\<lparr>rxBlocks_closed := True\<rparr>) (LogInfo ''rx count reached''), Returned))"

definition rxer :: "Test \<Rightarrow> protocol \<Rightarrow> rxevent list \<Rightarrow> protocol \<times> status" where
  "rxer t p evs =
     (case rxer_loop t (log_add p (LogDebug ''started'')) evs of
        (p', Returned) \<Rightarrow> (log_add p' (LogDebug ''complete''), Returned)
      | (p', st) \<Rightarrow> (p', st))"

subsection \<open>The Transmit Loop\<close>

definition Millisecond :: int where
  "Millisecond = 1000000"

text \<open>The zero value of \<open>time.Time\<close>: January 1 of year 1, 00:00 UTC.\<close>

definition zeroTime :: time where
  "zeroTime = - 62135596800 * 1000000000"

text \<open>\<open>a.Sub(b)\<close>: the difference, kept within the range of \<open>time.Duration\<close> (\<open>int64\<close>).\<close>

definition Sub :: "time \<Rightarrow> time \<Rightarrow> int" where
  "Sub a b =
     (if a - b > 2 ^ 63 - 1 then 2 ^ 63 - 1
      else if a - b < - (2 ^ 63) then - (2 ^ 63)
      else a - b)"

text \<open>
  \<open>rand.Intn(n)\<close> for \<open>n > 0\<close>: a number in \<open>[0, n)\<close>; \<open>r\<close> is what the generator draws.
\<close>

definition Intn :: "nat \<Rightarrow> int \<Rightarrow> int" where
  "Intn r n = int r mod n"

text \<open>
  What the Transmit Loop keeps in local variables (\<open>lastSend\<close>), and what it does to the
  outside: the sleeps of the pacing and the blocks given to \<open>block.Tx\<close>, in order.
\<close>

datatype tx_action = Sleep int | Tx Block

record txlocal =
  lastSend :: time
  actions :: "tx_action list"

text \<open>
  An event of the Transmit Loop: the block received from the generator's channel (\<open>None\<close>
  is the nil of the closed channel), the draw of the random generator, the reading of
  \<open>time.Now()\<close>, and the answer of \<open>block.Tx(p)\<close>.
\<close>

datatype txevent = Generated "Block option" nat time "err option"

text \<open>The latency echo of \<open>txer\<close>: a non-blocking receive from \<open>latencies\<close>, for a plain block only.\<close>

definition latency_echo :: "protocol \<Rightarrow> Block \<Rightarrow> Block \<times> protocol" where
  "latency_echo p block =
     (if Type block = BlockTypePlain then
        (case latencies p of
           [] \<Rightarrow> (block, p)
         | latency # rest \<Rightarrow>
             (block\<lparr>Type := BlockTypeLatencyResponse, Timestamp := latency\<rparr>,
              p\<lparr>latencies := rest\<rparr>))
      else (block, p))"

text \<open>The pacing of \<open>txer\<close>.\<close>

definition pacing :: "Test \<Rightarrow> txlocal \<Rightarrow> nat \<Rightarrow> time \<Rightarrow> txlocal" where
  "pacing t l r now =
     (if 0 < sint (TxPacing t) then
        (let jitter = (if 0 < sint (TxMaxJitter t) then Intn r (sint (TxMaxJitter t)) else 0);
             nextSend = lastSend l + (sint (TxPacing t) + jitter) * Millisecond
         in if nextSend > now
            then l\<lparr>actions := actions l @ [Sleep (Sub nextSend now)], lastSend := nextSend\<rparr>
            else l\<lparr>lastSend := now\<rparr>)
      else l)"

fun txer_iter :: "Test \<Rightarrow> protocol \<times> txlocal \<Rightarrow> txevent \<Rightarrow> (protocol \<times> txlocal) \<times> status" where
  "txer_iter t (p, l) (Generated (Some block) r now answer) =
     (let (block', p1) = latency_echo p block;
          l1 = pacing t l r now;
          l2 = l1\<lparr>actions := actions l1 @ [Tx block']\<rparr>
      in case answer of
           None \<Rightarrow> ((p1\<lparr>txCount := txCount p1 + 1\<rparr>, l2), Running)
         | Some e \<Rightarrow>
             (let p2 = log_add p1 (LogSendError e)
              in case send_error p2 e of
                   None \<Rightarrow> ((p2, l2), Blocked)
                 | Some p3 \<Rightarrow> ((p3, l2), Returned)))"
| "txer_iter t (p, l) (Generated None r now answer) =
     ((log_add p (LogError ''tx blocks chan closed''), l), Returned)"

fun txer_loop :: "Test \<Rightarrow> protocol \<times> txlocal \<Rightarrow> txevent list \<Rightarrow> (protocol \<times> txlocal) \<times> status" where
  "txer_loop t (p, l) [] =
     (if txCount p <s TxRequests t then ((p, l), Running)
      else ((log_add p (LogInfo ''tx count reached''), l), Returned))"
| "txer_loop t (p, l) (ev # evs) =
     (if txCount p <s TxRequests t then
        (case txer_iter t (p, l) ev of
           (s', Running) \<Rightarrow> txer_loop t s' evs
         | (s', st) \<Rightarrow> (s', st))
      else ((log_add p (LogInfo ''tx count reached''), l), Returned))"

definition txer :: "Test \<Rightarrow> protocol \<Rightarrow> txevent list \<Rightarrow> (protocol \<times> txlocal) \<times> status" where
  "txer t p evs =
     (case txer_loop t (log_add p (LogDebug ''started''), \<lparr>lastSend = zeroTime, actions = []\<rparr>) evs of
        ((p', l'), Returned) \<Rightarrow> ((log_add p' (LogDebug ''complete''), l'), Returned)
      | (s', st) \<Rightarrow> (s', st))"


section \<open>The command that creates an edge router configuration\<close>

text \<open>
  The options of the command. \<open>Output\<close>, \<open>RouterName\<close> and \<open>Verbose\<close> belong to the
  embedded \<open>CreateConfigRouterOptions\<close>, which is declared outside the sources; \<open>run\<close> reads
  \<open>Output\<close> only.
\<close>

record CreateConfigRouterEdgeOptions =
  Output :: string
  RouterName :: string
  Verbose :: bool
  WssEnabled :: bool
  IsPrivate :: bool

datatype cmd_error =
    MutuallyExclusive
  | Library string
  | Wrap cmd_error string

datatype stat_answer = StatOk | StatNotExist cmd_error | StatOtherError cmd_error

text \<open>
  What \<open>run\<close> asks of the standard library, the file system and the logger:
  \<open>strings.ToLower\<close>, \<open>filepath.Dir\<close>, the parsing of the embedded template, \<open>os.Stat\<close>,
  \<open>os.Create\<close>, the execution of the template on the output, and whether the exit
  function that \<open>logrus.Fatal\<close> calls ends the process, as \<open>os.Exit\<close>, the default, does.
\<close>

record os_env =
  ToLower :: "string \<Rightarrow> string"
  Dir :: "string \<Rightarrow> string"
  Parse :: "cmd_error option"
  Stat :: "string \<Rightarrow> stat_answer"
  Create :: "string \<Rightarrow> cmd_error option"
  Execute :: "cmd_error option"
  exit_ends_process :: bool

datatype target = Stdout | File string

text \<open>
  What \<open>run\<close> does to the outside, in order. \<open>ExecuteTemplate\<close> is the writing of the
  configuration; when \<open>Execute\<close> fails, part of it may have been written.
\<close>

datatype effect =
    Fatal string
  | Debugf string
  | CreateFile string
  | ExecuteTemplate target
  | CloseFile target

text \<open>
  \<open>run\<close> returns an error or nil to its caller, or the process ends inside it:
  \<open>logrus.Fatal\<close> and \<open>logrus.Fatalf\<close> write the entry and then call the logger's exit
  function with status 1. When that function ends the process the statement after them
  is not reached; when it returns, \<open>run\<close> goes on to its \<open>return\<close>.
\<close>

datatype outcome = Return "cmd_error option" | Exit nat

definition execute_and_close :: "os_env \<Rightarrow> CreateConfigRouterEdgeOptions \<Rightarrow> effect list \<Rightarrow> target \<Rightarrow> effect list \<times> outcome" where
  "execute_and_close env options effs f =
     (case Execute env of
        Some err \<Rightarrow>
          (effs @ [ExecuteTemplate f, CloseFile f],
           Return (Some (Wrap err ''unable to execute template'')))
      | None \<Rightarrow>
          (effs @ [ExecuteTemplate f,
                   Debugf (''Edge Router configuration generated successfully and written to: '' @ Output options),
                   CloseFile f],
           Return None))"

definition run :: "os_env \<Rightarrow> CreateConfigRouterEdgeOptions \<Rightarrow> effect list \<times> outcome" where
  "run env options =
     (if IsPrivate options \<and> WssEnabled options then
        ([Fatal ''Flags for private and wss configs are mutually exclusive. You must choose private or wss, not both''],
         if exit_ends_process env then Exit 1 else Return (Some MutuallyExclusive))
      else
        (case Parse env of
           Some err \<Rightarrow> ([], Return (Some err))
         | None \<Rightarrow>
             if ToLower env (Output options) \<noteq> ''stdout'' then
               (let basePath = Dir env (Output options) @ ''/''
                in case Stat env (Dir env basePath) of
                     StatNotExist err \<Rightarrow>
                       ([Fatal (''Provided path: ['' @ basePath @ ''] does not exist'' @ [CHR 0x0A])],
                        if exit_ends_process env then Exit 1 else Return (Some err))
                   | _ \<Rightarrow>
                       (case Create env (Output options) of
                          Some err \<Rightarrow>
                            ([Debugf (''Created output file: '' @ Output options)],
                             Return (Some (Wrap err (''unable to create config file: '' @ Output options))))
                        | None \<Rightarrow>
                            execute_and_close env options
                              [CreateFile (Output options),
                               Debugf (''Created output file: '' @ Output options)]
                              (File (Output options))))
             else execute_and_close env options [] Stdout))"

text \<open>Whether a list of effects touches the configuration output at all.\<close>

fun writes_output :: "effect \<Rightarrow> bool" where
  "writes_output (CreateFile _) = True"
| "writes_output (ExecuteTemplate _) = True"
| "writes_output _ = False"

text \<open>What it is for \<open>run\<close> to report an error to its caller: it returns, and not nil.\<close>

fun reports_error :: "outcome \<Rightarrow> bool" where
  "reports_error (Return (Some err)) = True"
| "reports_error _ = False"

section \<open>Concrete inputs\<close>

text \<open>
  A test descriptor, blocks whose hash field is their payload (so that the identity
  function can stand for the digest), and a block whose hash field is wrong; they are the
  inputs at which the statements below are evaluated.
\<close>

definition example_test :: Test where
  "example_test =
     \<lparr>Name = ''loop'', TxRequests = 2, RxRequests = 2, PayloadMinBytes = 1, PayloadMaxBytes = 1,
      LatencyFrequency = 0, TxPacing = 10, TxMaxJitter = 5, RxTimeout = 50\<rparr>"

definition example_block :: "uint32 \<Rightarrow> BlockType \<Rightarrow> time \<Rightarrow> Block" where
  "example_block n ty ts = \<lparr>Sequence = n, Type = ty, Data = [1, 2], Hash = [1, 2], Timestamp = ts\<rparr>"

definition corrupt_block :: "uint32 \<Rightarrow> Block" where
  "corrupt_block n = \<lparr>Sequence = n, Type = BlockTypePlain, Data = [1, 2], Hash = [1, 3], Timestamp = 0\<rparr>"

definition same_bytes :: "byte list \<Rightarrow> byte list" where
  "same_bytes d = d"

text \<open>
  A file system on which everything succeeds, with the logger's default exit function,
  and the options with both flags set.
\<close>

definition example_env :: os_env where
  "example_env =
     \<lparr>ToLower = (\<lambda>s. s), Dir = (\<lambda>s. ''.''), Parse = None, Stat = (\<lambda>s. StatOk),
      Create = (\<lambda>s. None), Execute = None, exit_ends_process = True\<rparr>"

definition both_flags :: CreateConfigRouterEdgeOptions where
  "both_flags =
     \<lparr>Output = ''stdout'', RouterName = ''my_router'', Verbose = False,
      WssEnabled = True, IsPrivate = True\<rparr>"

section \<open>Facts about the framing codec\<close>

subsection \<open>Little-endian encoding\<close>

lemma Uint32_PutUint32: "Uint32 (PutUint32 v) = v"
proof (rule bit_word_eqI)
  fix n assume "n < LENGTH(32)"
  then have n: "n < 32" by simp
  consider "n < 8" | "8 \<le> n" "n < 16" | "16 \<le> n" "n < 24" | "24 \<le> n"
    by linarith
  then show "bit (Uint32 (PutUint32 v)) n = bit v n"
    using n by cases (auto simp add: PutUint32_def bit_simps)
qed

lemma Uint32_as_sum:
  "Uint32 [b0, b1, b2, b3] =
     (ucast b0 :: 32 word) + (push_bit 8 (ucast b1) + (push_bit 16 (ucast b2) + push_bit 24 (ucast b3)))"
proof -
  have 3: "(push_bit 16 (ucast b2) :: 32 word) + push_bit 24 (ucast b3)
      = push_bit 16 (ucast b2) OR push_bit 24 (ucast b3)"
    by (rule disjunctive_add) (auto simp add: bit_simps dest: bit_imp_le_length)
  have 2: "(push_bit 8 (ucast b1) :: 32 word) + (push_bit 16 (ucast b2) OR push_bit 24 (ucast b3))
      = push_bit 8 (ucast b1) OR push_bit 16 (ucast b2) OR push_bit 24 (ucast b3)"
    by (rule disjunctive_add) (auto simp add: bit_simps dest: bit_imp_le_length)
  have 1: "(ucast b0 :: 32 word) + (push_bit 8 (ucast b1) OR push_bit 16 (ucast b2) OR push_bit 24 (ucast b3))
     = ucast b0 OR push_bit 8 (ucast b1) OR push_bit 16 (ucast b2) OR push_bit 24 (ucast b3)"
    by (rule disjunctive_add) (auto simp add: bit_simps dest: bit_imp_le_length)
  show ?thesis by (simp add: 1 2 3)
qed

lemma le_unsigned4_bound: "le_unsigned [b0, b1, b2, b3] < 2 ^ 32"
proof -
  have "unat b0 < 256" "unat b1 < 256" "unat b2 < 256" "unat b3 < 256"
    using unsigned_less [of b0] unsigned_less [of b1] unsigned_less [of b2] unsigned_less [of b3]
    by simp_all
  then show ?thesis by simp
qed

lemma Uint32_of_nat: "Uint32 [b0, b1, b2, b3] = word_of_nat (le_unsigned [b0, b1, b2, b3])"
  by (simp add: Uint32_as_sum push_bit_eq_mult del: Uint32.simps)

lemma unat_Uint32: "unat (Uint32 [b0, b1, b2, b3]) = le_unsigned [b0, b1, b2, b3]"
  using le_unsigned4_bound [of b0 b1 b2 b3]
  by (simp only: Uint32_of_nat) (simp add: unat_of_nat del: le_unsigned.simps)

lemma le_unsigned_PutUint32: "le_unsigned (PutUint32 v) = unat v"
proof -
  have "unat (Uint32 (PutUint32 v)) = le_unsigned (PutUint32 v)"
    unfolding PutUint32_def by (rule unat_Uint32)
  then show ?thesis
    unfolding Uint32_PutUint32 by (rule sym)
qed

lemma sint_32_uint:
  "sint (w :: 32 word) = (if uint w < 2147483648 then uint w else uint w - 4294967296)"
proof -
  have b: "uint w < 4294967296" using uint_lt2p [of w] by simp
  have c: "0 \<le> uint w" by simp
  have s: "sint w = (uint w + 2147483648) mod 4294967296 - 2147483648"
    by (simp add: sint_uint signed_take_bit_eq_take_bit_shift take_bit_eq_mod)
  show ?thesis
  proof (cases "uint w < 2147483648")
    case True
    then have "(uint w + 2147483648) mod 4294967296 = uint w + 2147483648"
      using c by (intro mod_pos_pos_trivial) simp_all
    with True s show ?thesis by simp
  next
    case False
    have "uint w + 2147483648 = (uint w - 2147483648) + 4294967296"
      by arith
    then have "(uint w + 2147483648) mod 4294967296
        = ((uint w - 2147483648) + 4294967296) mod 4294967296"
      by (rule arg_cong)
    also have "\<dots> = (uint w - 2147483648) mod 4294967296"
      by (rule mod_add_self2)
    also have "\<dots> = uint w - 2147483648"
      using False b by (intro mod_pos_pos_trivial) simp_all
    finally show ?thesis using False s by simp
  qed
qed

lemma sint_32:
  "sint (w :: 32 word) = (if unat w < 2 ^ 31 then int (unat w) else int (unat w) - 2 ^ 32)"
proof -
  have "int (unat w) = uint w" by simp
  moreover have "(unat w < 2 ^ 31) = (uint w < 2147483648)"
    by (simp add: unat_eq_nat_uint nat_less_iff del: nat_uint_eq)
  ultimately show ?thesis by (simp only: sint_32_uint) simp
qed

lemma length_PutUint32: "length (PutUint32 v) = 4"
  by (simp add: PutUint32_def)

lemma length_MagicHeader: "length MagicHeader = 4"
  by (simp add: MagicHeader_def)

subsection \<open>Writing\<close>

lemma Write_split: "Write w bs = ((accepted w bs, reported w bs), after_write w bs)"
  by (simp add: accepted_def reported_def after_write_def)

lemma accepted_le: "accepted w bs \<le> length bs"
  by (simp add: accepted_def Write_def Let_def split: list.splits prod.splits)

lemma written_after: "written (after_write w bs) = written w @ take (accepted w bs) bs"
  by (simp add: accepted_def after_write_def Write_def Let_def split: list.splits prod.splits)

lemma complete_writer:
  "script w = [] \<Longrightarrow> accepted w bs = length bs \<and> reported w bs = None
     \<and> after_write w bs = w\<lparr>written := written w @ bs\<rparr>"
  by (simp add: accepted_def reported_def after_write_def Write_def)

lemma txMagicHeader_eq:
  "txMagicHeader w =
     (case reported w MagicHeader of
        Some e \<Rightarrow> (Some e, after_write w MagicHeader)
      | None \<Rightarrow>
          (if accepted w MagicHeader < 4 then (Some ShortMagicHeaderWrite, after_write w MagicHeader)
           else (None, after_write w MagicHeader)))"
proof -
  have "(accepted w MagicHeader \<noteq> 4) = (accepted w MagicHeader < 4)"
    using accepted_le [of w MagicHeader] by (simp add: length_MagicHeader) linarith
  then show ?thesis
    by (simp add: txMagicHeader_def Write_split length_MagicHeader split: option.splits)
qed

lemma txLength_eq:
  "txLength w len =
     (case reported w (PutUint32 (word_of_int len)) of
        Some e \<Rightarrow> (Some e, after_write w (PutUint32 (word_of_int len)))
      | None \<Rightarrow>
          (if accepted w (PutUint32 (word_of_int len)) < 4
           then (Some ShortLengthWrite, after_write w (PutUint32 (word_of_int len)))
           else (None, after_write w (PutUint32 (word_of_int len)))))"
proof -
  have "(accepted w (PutUint32 (word_of_int len)) \<noteq> 4) = (accepted w (PutUint32 (word_of_int len)) < 4)"
    using accepted_le [of w "PutUint32 (word_of_int len)"] by (simp add: length_PutUint32) linarith
  then show ?thesis
    by (simp add: txLength_def Write_split Let_def split: option.splits)
qed

lemma txPb_eq:
  assumes "Marshal pb = Inr data"
  shows "txPb Marshal w pb =
    (case reported w MagicHeader of
       Some e \<Rightarrow> (Some e, after_write w MagicHeader)
     | None \<Rightarrow>
        (if accepted w MagicHeader < 4
         then (Some ShortMagicHeaderWrite, after_write w MagicHeader)
         else (case reported (after_write w MagicHeader) (PutUint32 (word_of_nat (length data))) of
            Some e \<Rightarrow> (Some e, after_write (after_write w MagicHeader) (PutUint32 (word_of_nat (length data))))
          | None \<Rightarrow>
             (if accepted (after_write w MagicHeader) (PutUint32 (word_of_nat (length data))) < 4
              then (Some ShortLengthWrite,
                    after_write (after_write w MagicHeader) (PutUint32 (word_of_nat (length data))))
              else (case reported (after_write (after_write w MagicHeader) (PutUint32 (word_of_nat (length data)))) data of
                  Some e \<Rightarrow> (Some e, after_write (after_write (after_write w MagicHeader) (PutUint32 (word_of_nat (length data)))) data)
                | None \<Rightarrow>
                   (if accepted (after_write (after_write w MagicHeader) (PutUint32 (word_of_nat (length data)))) data < length data
                    then (Some ShortDataWrite, after_write (after_write (after_write w MagicHeader) (PutUint32 (word_of_nat (length data)))) data)
                    else (None, after_write (after_write (after_write w MagicHeader) (PutUint32 (word_of_nat (length data)))) data)))))))"
proof -
  have neq: "(accepted w' data \<noteq> length data) = (accepted w' data < length data)" for w'
    using accepted_le [of w' data] by linarith
  show ?thesis
    by (simp add: txPb_def assms txMagicHeader_eq txLength_eq Write_split neq split: option.splits)
qed

subsection \<open>Reading\<close>

lemma ReadFull_enough:
  "n \<le> length (pending r) \<Longrightarrow>
     ReadFull r n = ((n, take n (pending r), None), r\<lparr>pending := drop n (pending r)\<rparr>)"
  by (simp add: ReadFull_def)

lemma ReadFull_short:
  "length (pending r) < n \<Longrightarrow>
     ReadFull r n =
       ((length (pending r), pending r @ replicate (n - length (pending r)) 0,
         Some (if at_end r = EOF \<and> pending r \<noteq> [] then ErrUnexpectedEOF else at_end r)),
        r\<lparr>pending := []\<rparr>)"
  by (simp add: ReadFull_def Let_def)

lemma rxMagicHeader_short:
  "length (pending r) < 4 \<Longrightarrow>
     rxMagicHeader r =
       (Some (if at_end r = EOF \<and> pending r \<noteq> [] then ErrUnexpectedEOF else at_end r),
        r\<lparr>pending := []\<rparr>)"
  by (simp add: rxMagicHeader_def length_MagicHeader ReadFull_short)

lemma rxMagicHeader_enough:
  "4 \<le> length (pending r) \<Longrightarrow>
     rxMagicHeader r =
       (if take 4 (pending r) = MagicHeader then None
        else Some (BadHeader (take 4 (pending r)) MagicHeader),
        r\<lparr>pending := drop 4 (pending r)\<rparr>)"
  by (auto simp add: rxMagicHeader_def length_MagicHeader ReadFull_enough)

lemma rxLength_short:
  "length (pending r) < 4 \<Longrightarrow>
     rxLength r =
       ((- 1, Some (if at_end r = EOF \<and> pending r \<noteq> [] then ErrUnexpectedEOF else at_end r)),
        r\<lparr>pending := []\<rparr>)"
  by (simp add: rxLength_def ReadFull_short)

lemma rxLength_enough:
  "4 \<le> length (pending r) \<Longrightarrow>
     rxLength r = ((sint (Uint32 (take 4 (pending r))), None), r\<lparr>pending := drop 4 (pending r)\<rparr>)"
  by (simp add: rxLength_def ReadFull_enough)

text \<open>
  The length that \<open>rxLength\<close> returns is the two's complement reading of the four bytes:
  it is their unsigned little-endian value below \<open>2^31\<close>, and that value less \<open>2^32\<close> from
  there on.
\<close>

lemma rxLength_value:
  assumes "pending r = b0 # b1 # b2 # b3 # rest"
  shows "rxLength r =
    ((if le_unsigned [b0, b1, b2, b3] < 2 ^ 31 then int (le_unsigned [b0, b1, b2, b3])
      else int (le_unsigned [b0, b1, b2, b3]) - 2 ^ 32, None),
     r\<lparr>pending := rest\<rparr>)"
proof -
  have "rxLength r = ((sint (Uint32 [b0, b1, b2, b3]), None), r\<lparr>pending := rest\<rparr>)"
    using assms by (simp add: rxLength_enough del: Uint32.simps)
  then show ?thesis
    by (simp only: sint_32 unat_Uint32)
qed

lemma rxLength_unsigned_iff:
  assumes "pending r = b0 # b1 # b2 # b3 # rest"
  shows "fst (fst (rxLength r)) = int (le_unsigned [b0, b1, b2, b3])
           \<longleftrightarrow> le_unsigned [b0, b1, b2, b3] < 2 ^ 31"
  by (simp add: rxLength_value [OF assms] del: le_unsigned.simps)


lemma rxPb_short_header:
  "length (pending r) < 4 \<Longrightarrow>
     rxPb Unmarshal r =
       (Failed (if at_end r = EOF \<and> pending r \<noteq> [] then ErrUnexpectedEOF else at_end r),
        r\<lparr>pending := []\<rparr>)"
  by (simp add: rxPb_def rxMagicHeader_short)

lemma rxPb_bad_header:
  "4 \<le> length (pending r) \<Longrightarrow> take 4 (pending r) \<noteq> MagicHeader \<Longrightarrow>
     rxPb Unmarshal r =
       (Failed (BadHeader (take 4 (pending r)) MagicHeader), r\<lparr>pending := drop 4 (pending r)\<rparr>)"
  by (simp add: rxPb_def rxMagicHeader_enough)

lemma rxPb_after_header:
  assumes "pending r = MagicHeader @ b0 # b1 # b2 # b3 # rest"
  shows "rxPb Unmarshal r =
    (let len = sint (Uint32 [b0, b1, b2, b3]); r2 = r\<lparr>pending := rest\<rparr>
     in if len < 0 then (Panicked len, r2)
        else if length rest < nat len
        then (Failed (if at_end r = EOF \<and> rest \<noteq> [] then ErrUnexpectedEOF else at_end r),
              r\<lparr>pending := []\<rparr>)
        else (case Unmarshal (take (nat len) rest) of
                Inl e \<Rightarrow> (Failed e, r\<lparr>pending := drop (nat len) rest\<rparr>)
              | Inr m \<Rightarrow> (Decoded m, r\<lparr>pending := drop (nat len) rest\<rparr>)))"
proof -
  let ?r1 = "r\<lparr>pending := b0 # b1 # b2 # b3 # rest\<rparr>"
  have h: "rxMagicHeader r = (None, ?r1)"
    using assms by (simp add: rxMagicHeader_enough length_MagicHeader)
  have l: "rxLength ?r1 = ((sint (Uint32 [b0, b1, b2, b3]), None), r\<lparr>pending := rest\<rparr>)"
    by (simp add: rxLength_enough del: Uint32.simps)
  show ?thesis
    by (simp add: rxPb_def h l Let_def ReadFull_enough ReadFull_short not_less
          del: Uint32.simps split: sum.splits)
qed

text \<open>
  A frame that is returned decoded was read as the marker, four bytes of length and
  exactly as many payload bytes as the length says; nothing more was consumed.
\<close>

lemma rxPb_Decoded:
  assumes "rxPb Unmarshal r = (Decoded m, r')"
  shows "\<exists>lenb data. pending r = MagicHeader @ lenb @ data @ pending r' \<and> length lenb = 4
            \<and> int (length data) = sint (Uint32 lenb) \<and> Unmarshal data = Inr m"
proof -
  have 4: "4 \<le> length (pending r)"
    using assms by (cases "length (pending r) < 4") (simp_all add: rxPb_short_header)
  have m: "take 4 (pending r) = MagicHeader"
    using assms 4 by (cases "take 4 (pending r) = MagicHeader") (simp_all add: rxPb_bad_header)
  let ?q = "drop 4 (pending r)"
  have pq: "pending r = MagicHeader @ ?q"
    using m append_take_drop_id [of 4 "pending r"] by simp
  have 8: "4 \<le> length ?q"
  proof (rule ccontr)
    assume "\<not> 4 \<le> length ?q"
    then have "length (pending (r\<lparr>pending := ?q\<rparr>)) < 4" by simp
    then have "rxLength (r\<lparr>pending := ?q\<rparr>) =
       ((- 1, Some (if at_end r = EOF \<and> ?q \<noteq> [] then ErrUnexpectedEOF else at_end r)), r\<lparr>pending := []\<rparr>)"
      by (simp add: rxLength_short)
    with assms 4 m show False
      by (simp add: rxPb_def rxMagicHeader_enough)
  qed
  then obtain b0 b1 b2 b3 rest where q: "?q = b0 # b1 # b2 # b3 # rest"
    by (cases ?q; cases "tl ?q"; cases "tl (tl ?q)"; cases "tl (tl (tl ?q))") auto
  have pr: "pending r = MagicHeader @ b0 # b1 # b2 # b3 # rest"
    using pq q by simp
  let ?len = "sint (Uint32 [b0, b1, b2, b3])"
  from assms have len: "0 \<le> ?len" and enough: "nat ?len \<le> length rest"
     and u: "Unmarshal (take (nat ?len) rest) = Inr m" and r': "r' = r\<lparr>pending := drop (nat ?len) rest\<rparr>"
    unfolding rxPb_after_header [OF pr] Let_def
    by (simp_all del: Uint32.simps split: if_splits sum.splits)
  have "pending r = MagicHeader @ [b0, b1, b2, b3] @ take (nat ?len) rest @ pending r'"
    using pr r' by simp
  moreover have "int (length (take (nat ?len) rest)) = ?len"
    using len enough by simp
  ultimately show ?thesis
    using u by (intro exI [of _ "[b0, b1, b2, b3]"] exI [of _ "take (nat ?len) rest"]) simp
qed

lemma rxPb_truncated:
  assumes "pending r = MagicHeader @ b0 # b1 # b2 # b3 # rest"
    and "le_unsigned [b0, b1, b2, b3] < 2 ^ 31"
    and "length rest < le_unsigned [b0, b1, b2, b3]"
  shows "rxPb Unmarshal r =
    (Failed (if at_end r = EOF \<and> rest \<noteq> [] then ErrUnexpectedEOF else at_end r), r\<lparr>pending := []\<rparr>)"
proof -
  have "sint (Uint32 [b0, b1, b2, b3]) = int (le_unsigned [b0, b1, b2, b3])"
    using assms(2) by (simp only: sint_32 unat_Uint32 if_True)
  then show ?thesis
    using assms(3) unfolding rxPb_after_header [OF assms(1)] Let_def
    by (simp del: Uint32.simps le_unsigned.simps)
qed

lemma rxPb_negative_length:
  assumes "pending r = MagicHeader @ b0 # b1 # b2 # b3 # rest"
    and "2 ^ 31 \<le> le_unsigned [b0, b1, b2, b3]"
  shows "rxPb Unmarshal r =
    (Panicked (int (le_unsigned [b0, b1, b2, b3]) - 2 ^ 32), r\<lparr>pending := rest\<rparr>)"
proof -
  have s: "sint (Uint32 [b0, b1, b2, b3]) = int (le_unsigned [b0, b1, b2, b3]) - 2 ^ 32"
    using assms(2) by (simp only: sint_32 unat_Uint32 not_less [symmetric] if_False)
  have "int (le_unsigned [b0, b1, b2, b3]) < 2 ^ 32"
    using le_unsigned4_bound [of b0 b1 b2 b3] by (simp del: le_unsigned.simps)
  then have "sint (Uint32 [b0, b1, b2, b3]) < 0"
    unfolding s by simp
  then show ?thesis
    unfolding rxPb_after_header [OF assms(1)] Let_def s
    by (simp del: Uint32.simps le_unsigned.simps)
qed

section \<open>The claims about the framing codec\<close>

text \<open>
  C4. The claim: the frame-reading path decodes the four length bytes as an unsigned
  little-endian integer, for all values up to \<open>2^32 - 1\<close>. On the bytes
  \<open>00 00 00 80\<close>, whose unsigned little-endian value is 2147483648, \<open>rxLength\<close> returns
  -2147483648 with no error, and \<open>rxPb\<close>, having read the marker and this length,
  panics in \<open>make\<close> instead of reading a payload.
\<close>

theorem rxLength_high_bit_is_negative:
  "le_unsigned [0x00, 0x00, 0x00, 0x80] = 2147483648
   \<and> rxLength \<lparr>pending = [0x00, 0x00, 0x00, 0x80], at_end = EOF\<rparr>
       = ((- 2147483648, None), \<lparr>pending = [], at_end = EOF\<rparr>)"
  by (simp add: rxLength_def ReadFull_def)

text \<open>
  C5, as stated: for every payload the length field written equals the payload's byte
  count. A payload of \<open>2^32\<close> bytes is written with the length field \<open>00 00 00 00\<close>.
\<close>

theorem txPb_length_field_wraps:
  "fst (txPb Inr \<lparr>written = [], script = []\<rparr> (replicate 4294967296 (0 :: byte))) = None
   \<and> take 4 (drop 4 (written (snd (txPb Inr \<lparr>written = [], script = []\<rparr>
                                       (replicate 4294967296 (0 :: byte))))))
       = [0, 0, 0, 0]
   \<and> le_unsigned [0, 0, 0, 0] \<noteq> length (replicate 4294967296 (0 :: byte))"
proof -
  have z: "(4294967296 :: 32 word) = 0"
    by simp
  have "txPb Inr \<lparr>written = [], script = []\<rparr> (replicate 4294967296 (0 :: byte))
      = (None, \<lparr>written = MagicHeader @ PutUint32 0 @ replicate 4294967296 0, script = []\<rparr>)"
    by (simp add: txPb_eq [where data = "replicate 4294967296 0"] complete_writer z
          length_MagicHeader length_PutUint32)
  then show ?thesis
    by (simp add: MagicHeader_def PutUint32_def)
qed

text \<open>
  C5, amended: for every payload of fewer than \<open>2^32\<close> bytes, \<open>txPb\<close> writes the marker,
  then the four-byte little-endian unsigned length equal to the payload's byte count,
  then the payload, in that order: whenever it reports success, exactly this has been
  appended to the stream, and on a writer that accepts everything it does report success.
  If a write accepts fewer bytes than requested, \<open>txPb\<close> stops there and returns an error:
  the writer's own error if it gave one, and the short-write error of that part otherwise.
\<close>

theorem txPb_writes_frame:
  assumes "Marshal pb = Inr data" and "length data < 2 ^ 32"
  shows "le_unsigned (PutUint32 (word_of_nat (length data))) = length data
    \<and> (\<forall>w'. txPb Marshal w pb = (None, w') \<longrightarrow>
          written w' = written w @ MagicHeader @ PutUint32 (word_of_nat (length data)) @ data)
    \<and> (script w = [] \<longrightarrow> fst (txPb Marshal w pb) = None)
    \<and> (let l = PutUint32 (word_of_nat (length data));
            w1 = after_write w MagicHeader; w2 = after_write w1 l; w3 = after_write w2 data
        in (accepted w MagicHeader < 4 \<longrightarrow>
              txPb Marshal w pb =
                (Some (case reported w MagicHeader of Some e \<Rightarrow> e | None \<Rightarrow> ShortMagicHeaderWrite), w1))
         \<and> (accepted w MagicHeader = 4 \<and> reported w MagicHeader = None \<and> accepted w1 l < 4 \<longrightarrow>
              txPb Marshal w pb =
                (Some (case reported w1 l of Some e \<Rightarrow> e | None \<Rightarrow> ShortLengthWrite), w2))
         \<and> (accepted w MagicHeader = 4 \<and> reported w MagicHeader = None
              \<and> accepted w1 l = 4 \<and> reported w1 l = None \<and> accepted w2 data < length data \<longrightarrow>
              txPb Marshal w pb =
                (Some (case reported w2 data of Some e \<Rightarrow> e | None \<Rightarrow> ShortDataWrite), w3)))"
proof -
  let ?l = "PutUint32 (word_of_nat (length data))"
  let ?w1 = "after_write w MagicHeader"
  let ?w2 = "after_write ?w1 ?l"
  let ?w3 = "after_write ?w2 data"
  note eq = txPb_eq [of Marshal pb data w, OF assms(1)]
  have len: "le_unsigned ?l = length data"
    using assms(2) by (simp add: le_unsigned_PutUint32 unat_of_nat)
  have success: "written w' = written w @ MagicHeader @ ?l @ data"
    if "txPb Marshal w pb = (None, w')" for w'
  proof -
    from that have a1: "\<not> accepted w MagicHeader < 4" and a2: "\<not> accepted ?w1 ?l < 4"
      and a3: "\<not> accepted ?w2 data < length data" and w': "w' = ?w3"
      unfolding eq by (simp_all split: option.splits if_splits)
    have b1: "accepted w MagicHeader = 4"
      using a1 accepted_le [of w MagicHeader] by (simp add: length_MagicHeader)
    have b2: "accepted ?w1 ?l = 4"
      using a2 accepted_le [of ?w1 ?l] by (simp add: length_PutUint32)
    have b3: "accepted ?w2 data = length data"
      using a3 accepted_le [of ?w2 data] by simp
    show ?thesis
      by (simp add: w' written_after b1 b2 b3 length_MagicHeader length_PutUint32)
  qed
  have complete: "fst (txPb Marshal w pb) = None" if "script w = []"
    unfolding eq using that by (simp add: complete_writer length_MagicHeader length_PutUint32)
  have p1: "txPb Marshal w pb =
      (Some (case reported w MagicHeader of Some e \<Rightarrow> e | None \<Rightarrow> ShortMagicHeaderWrite), ?w1)"
    if "accepted w MagicHeader < 4"
    unfolding eq using that by (simp split: option.splits)
  have p2: "txPb Marshal w pb =
      (Some (case reported ?w1 ?l of Some e \<Rightarrow> e | None \<Rightarrow> ShortLengthWrite), ?w2)"
    if "accepted w MagicHeader = 4" "reported w MagicHeader = None" "accepted ?w1 ?l < 4"
    unfolding eq using that by (simp split: option.splits)
  have p3: "txPb Marshal w pb =
      (Some (case reported ?w2 data of Some e \<Rightarrow> e | None \<Rightarrow> ShortDataWrite), ?w3)"
    if "accepted w MagicHeader = 4" "reported w MagicHeader = None"
       "accepted ?w1 ?l = 4" "reported ?w1 ?l = None" "accepted ?w2 data < length data"
    unfolding eq using that by (simp split: option.splits)
  show ?thesis
    unfolding Let_def using len success complete p1 p2 p3 by blast
qed

theorem txPb_writes_frame_witness:
  "(Inr [1, 2, 3] :: err + byte list) = Inr [1, 2, 3] \<and> length [1, 2, 3 :: byte] < 2 ^ 32
   \<and> le_unsigned [3, 0, 0, 0] = length [1, 2, 3 :: byte]
   \<and> fst (txPb Inr \<lparr>written = [], script = []\<rparr> [1, 2, 3 :: byte]) = None
   \<and> written (snd (txPb Inr \<lparr>written = [], script = []\<rparr> [1, 2, 3 :: byte]))
       = [0xCA, 0xFE, 0xF0, 0x0D, 3, 0, 0, 0, 1, 2, 3]
   \<and> accepted \<lparr>written = [], script = [(2, None)]\<rparr> MagicHeader < 4
   \<and> txPb Inr \<lparr>written = [], script = [(2, None)]\<rparr> [1, 2, 3 :: byte]
       = (Some ShortMagicHeaderWrite, \<lparr>written = [0xCA, 0xFE], script = []\<rparr>)"
proof -
  let ?d = "[1, 2, 3 :: byte]"
  let ?w0 = "\<lparr>written = [], script = []\<rparr>"
  let ?w1 = "\<lparr>written = [], script = [(2, None)]\<rparr>"
  have m: "(Inr ?d :: err + byte list) = Inr ?d" by simp
  have h: "length ?d < 2 ^ 32" by simp
  note t0 = txPb_writes_frame [of Inr ?d ?d ?w0, OF m h]
  note t1 = txPb_writes_frame [of Inr ?d ?d ?w1, OF m h]
  have len: "le_unsigned (PutUint32 (word_of_nat (length ?d))) = length ?d"
    using t0 by (rule conjunct1)
  have l3: "PutUint32 (word_of_nat (length ?d)) = [3, 0, 0, 0]"
    by (simp add: PutUint32_def)
  have ok: "fst (txPb Inr ?w0 ?d) = None"
    using t0 by simp
  then have "txPb Inr ?w0 ?d = (None, snd (txPb Inr ?w0 ?d))"
    by (metis prod.collapse)
  with t0 have "written (snd (txPb Inr ?w0 ?d))
      = written ?w0 @ MagicHeader @ PutUint32 (word_of_nat (length ?d)) @ ?d"
    by blast
  then have wr: "written (snd (txPb Inr ?w0 ?d)) = [0xCA, 0xFE, 0xF0, 0x0D, 3, 0, 0, 0, 1, 2, 3]"
    unfolding l3 by (simp add: MagicHeader_def)
  have short: "accepted ?w1 MagicHeader < 4"
    by (simp add: accepted_def Write_def MagicHeader_def)
  with t1 have "txPb Inr ?w1 ?d =
      (Some (case reported ?w1 MagicHeader of Some e \<Rightarrow> e | None \<Rightarrow> ShortMagicHeaderWrite),
       after_write ?w1 MagicHeader)"
    unfolding Let_def by blast
  then have p: "txPb Inr ?w1 ?d = (Some ShortMagicHeaderWrite, \<lparr>written = [0xCA, 0xFE], script = []\<rparr>)"
    by (simp add: reported_def after_write_def Write_def MagicHeader_def)
  show ?thesis
    using m h len ok wr short p unfolding l3 by simp
qed

text \<open>
  C6. The claim: after a matching marker the frame-reading operation reads the length and
  then exactly that many payload bytes, failing with a short-read or unexpected-EOF error
  on truncation. On the stream \<open>CA FE F0 0D 00 00 00 80\<close>, which ends after the length
  field, \<open>rxPb\<close> returns no error: it panics in \<open>make\<close> with the length -2147483648.
  This is the signed reading of the length of C4. For the other failures of the claim see
  \<open>rxPb_short_header\<close>, \<open>rxPb_bad_header\<close>, \<open>rxPb_truncated\<close> and \<open>rxPb_Decoded\<close>.
\<close>

theorem rxPb_panics_on_high_bit_length:
  "rxPb Unmarshal \<lparr>pending = [0xCA, 0xFE, 0xF0, 0x0D, 0x00, 0x00, 0x00, 0x80], at_end = EOF\<rparr>
     = (Panicked (- 2147483648), \<lparr>pending = [], at_end = EOF\<rparr>)"
  by (simp add: rxPb_def rxMagicHeader_def rxLength_def ReadFull_def MagicHeader_def)

section \<open>Facts about the Verifier\<close>

subsection \<open>Comparing hashes through their hexadecimal text\<close>

lemma hextable_inj:
  assumes "i < 16" "j < 16" "hextable ! i = hextable ! j"
  shows "i = j"
proof -
  have "distinct hextable" "length hextable = 16"
    by (simp_all add: hextable_def)
  with assms show ?thesis
    by (simp add: nth_eq_iff_index_eq)
qed

lemma high_nibble_less: "unat (drop_bit 4 (v :: byte)) < 16"
proof -
  have "unat v < 256" using unsigned_less [of v] by simp
  then show ?thesis by (simp add: drop_bit_eq_div unat_div)
qed

lemma low_nibble_less: "unat ((v :: byte) AND 0x0f) < 16"
proof -
  have "v AND 0x0f \<le> 0x0f" by (rule word_and_le1)
  then have "unat (v AND 0x0f) \<le> unat (0x0f :: byte)" by (simp only: word_le_nat_alt)
  then show ?thesis by simp
qed

lemma byte_of_nibbles:
  assumes "drop_bit 4 (v :: byte) = drop_bit 4 v'" and "v AND 0x0f = v' AND 0x0f"
  shows "v = v'"
proof (rule bit_word_eqI)
  fix n assume "n < LENGTH(8)"
  show "bit v n = bit v' n"
  proof (cases "n < 4")
    case True
    have m: "(0x0f :: byte) = mask 4" by (simp add: mask_eq_exp_minus_1)
    have "bit (v AND 0x0f) n = bit (v' AND 0x0f) n" using assms(2) by simp
    then show ?thesis using True unfolding m by (simp add: bit_simps)
  next
    case False
    then have n: "n = (n - 4) + 4" by simp
    have "bit (drop_bit 4 v) (n - 4) = bit (drop_bit 4 v') (n - 4)" using assms(1) by simp
    then have "bit v ((n - 4) + 4) = bit v' ((n - 4) + 4)" by (simp add: bit_simps add.commute)
    then show ?thesis using n by simp
  qed
qed

lemma hex_pair_inj:
  assumes "hextable ! unat (drop_bit 4 v) = hextable ! unat (drop_bit 4 v')"
    and "hextable ! unat (v AND 0x0f) = hextable ! unat (v' AND 0x0f)"
  shows "v = (v' :: byte)"
proof (rule byte_of_nibbles)
  have "unat (drop_bit 4 v) = unat (drop_bit 4 v')"
    using high_nibble_less [of v] high_nibble_less [of v'] assms(1) by (rule hextable_inj)
  then show "drop_bit 4 v = drop_bit 4 v'"
    by (simp only: word_unat_eq_iff)
  have "unat (v AND 0x0f) = unat (v' AND 0x0f)"
    using low_nibble_less [of v] low_nibble_less [of v'] assms(2) by (rule hextable_inj)
  then show "v AND 0x0f = v' AND 0x0f"
    by (simp only: word_unat_eq_iff)
qed

lemma EncodeToString_inj: "EncodeToString xs = EncodeToString ys \<longleftrightarrow> xs = ys"
proof
  show "EncodeToString xs = EncodeToString ys \<Longrightarrow> xs = ys"
  proof (induction xs arbitrary: ys)
    case Nil
    then show ?case by (cases ys) (simp_all add: EncodeToString_def)
  next
    case (Cons x xs)
    then obtain y ys' where ys: "ys = y # ys'"
      by (cases ys) (simp_all add: EncodeToString_def)
    from Cons.prems
    have hi: "hextable ! unat (drop_bit 4 x) = hextable ! unat (drop_bit 4 y)"
      and lo: "hextable ! unat (x AND 0x0f) = hextable ! unat (y AND 0x0f)"
      and tl: "EncodeToString xs = EncodeToString ys'"
      unfolding ys EncodeToString_def by simp_all
    from hi lo have "x = y" by (rule hex_pair_inj)
    moreover from tl have "xs = ys'" by (rule Cons.IH)
    ultimately show ?case using ys by simp
  qed
qed simp

subsection \<open>The state after the steps of the Verifier\<close>

lemma log_add_fields:
  "errors (log_add p l) = errors p" "peer_closed (log_add p l) = peer_closed p"
  "rxSequence (log_add p l) = rxSequence p" "latencies (log_add p l) = latencies p"
  "rxCount (log_add p l) = rxCount p" "txCount (log_add p l) = txCount p"
  "rxBlocks (log_add p l) = rxBlocks p" "rxBlocks_closed (log_add p l) = rxBlocks_closed p"
  "lastRx (log_add p l) = lastRx p" "logged (log_add p l) = logged p @ [l]"
  by (simp_all add: log_add_def)

lemma close_peer_fields:
  "errors (close_peer p) = errors p" "peer_closed (close_peer p)"
  "rxSequence (close_peer p) = rxSequence p"
  by (simp_all add: close_peer_def Let_def log_add_fields split: option.splits)

lemma send_error_room:
  "length (errors p) < 10240 \<Longrightarrow> send_error p e = Some (p\<lparr>errors := errors p @ [e]\<rparr>)"
  by (simp add: send_error_def)

lemma send_error_full:
  "\<not> length (errors p) < 10240 \<Longrightarrow> send_error p e = None"
  by (simp add: send_error_def)

lemma verifier_iter_accept:
  assumes "Sequence b = rxSequence p" and "sha512 (Data b) = Hash b"
  shows "verifier_iter sha512 t p (Recv (Some b)) = (p\<lparr>rxSequence := rxSequence p + 1\<rparr>, Running)"
  using assms by simp

lemma verifier_iter_bad_hash:
  assumes "Sequence b = rxSequence p" and "sha512 (Data b) \<noteq> Hash b"
    and "length (errors p) < 10240"
  shows "verifier_iter sha512 t p (Recv (Some b)) =
     (log_add (close_peer (p\<lparr>errors := errors p @ [MismatchedHashes]\<rparr>)) (LogErr MismatchedHashes),
      Returned)"
  using assms by (simp add: EncodeToString_inj send_error_room)

lemma verifier_iter_bad_sequence:
  assumes "Sequence b \<noteq> rxSequence p" and "length (errors p) < 10240"
  shows "verifier_iter sha512 t p (Recv (Some b)) =
     (log_add (close_peer (p\<lparr>errors := errors p @ [SequenceMismatch (rxSequence p) (Sequence b)]\<rparr>))
        (LogErr (SequenceMismatch (rxSequence p) (Sequence b))),
      Returned)"
  using assms by (simp add: send_error_room Let_def)

lemma verifier_iter_Running:
  "snd (verifier_iter sha512 t p ev) = Running \<longleftrightarrow>
     (\<exists>b. ev = Recv (Some b) \<and> Sequence b = rxSequence p \<and> sha512 (Data b) = Hash b)"
proof (cases ev)
  case (Recv ob)
  show ?thesis
  proof (cases ob)
    case None
    with Recv show ?thesis by simp
  next
    case (Some b)
    with Recv show ?thesis
      by (simp add: EncodeToString_inj Let_def split: option.splits)
  qed
next
  case (TimeAfter now)
  then show ?thesis by simp
qed

lemma verifier_loop_stops:
  "snd (verifier_iter sha512 t p ev) \<noteq> Running \<Longrightarrow>
     verifier_loop sha512 t p (ev # evs) = verifier_iter sha512 t p ev"
  by (cases "verifier_iter sha512 t p ev") (simp split: status.splits)

lemma verifier_loop_goes_on:
  "verifier_iter sha512 t p ev = (p', Running) \<Longrightarrow>
     verifier_loop sha512 t p (ev # evs) = verifier_loop sha512 t p' evs"
  by simp

text \<open>
  While no error is reported, every block that reaches the Verifier carries the counter's
  value and a matching hash, and the counter has advanced by one for each of them.
\<close>

lemma verifier_loop_no_error:
  assumes "length (errors p) < 10240"
    and "errors (fst (verifier_loop sha512 t p evs)) = errors p"
  shows "map Sequence (received evs) = map (\<lambda>i. rxSequence p + word_of_nat i) [0..<length (received evs)]
    \<and> rxSequence (fst (verifier_loop sha512 t p evs)) = rxSequence p + word_of_nat (length (received evs))
    \<and> (\<forall>b \<in> set (received evs). sha512 (Data b) = Hash b)"
  using assms
proof (induction evs arbitrary: p)
  case Nil
  then show ?case by simp
next
  case (Cons ev evs)
  show ?case
  proof (cases ev)
    case (TimeAfter now)
    then show ?thesis by (simp add: log_add_fields)
  next
    case (Recv ob)
    show ?thesis
    proof (cases ob)
      case None
      with Recv show ?thesis by simp
    next
      case (Some b)
      note ev = Recv Some
      show ?thesis
      proof (cases "Sequence b = rxSequence p")
        case False
        have "errors (fst (verifier_loop sha512 t p (ev # evs)))
            = errors p @ [SequenceMismatch (rxSequence p) (Sequence b)]"
          unfolding ev using verifier_iter_bad_sequence [of b p sha512 t, OF False Cons.prems(1)]
          by (simp add: log_add_fields close_peer_fields del: verifier_iter.simps)
        with Cons.prems(2) show ?thesis by simp
      next
        case seq: True
        show ?thesis
        proof (cases "sha512 (Data b) = Hash b")
          case False
          have "errors (fst (verifier_loop sha512 t p (ev # evs))) = errors p @ [MismatchedHashes]"
            unfolding ev using verifier_iter_bad_hash [of b p sha512 t, OF seq False Cons.prems(1)]
            by (simp add: log_add_fields close_peer_fields del: verifier_iter.simps)
          with Cons.prems(2) show ?thesis by simp
        next
          case True
          let ?p' = "p\<lparr>rxSequence := rxSequence p + 1\<rparr>"
          have step: "verifier_loop sha512 t p (ev # evs) = verifier_loop sha512 t ?p' evs"
            unfolding ev using verifier_iter_accept [of b p sha512 t, OF seq True]
            by (simp del: verifier_iter.simps)
          have ih: "map Sequence (received evs)
               = map (\<lambda>i. rxSequence ?p' + word_of_nat i) [0..<length (received evs)]
             \<and> rxSequence (fst (verifier_loop sha512 t ?p' evs))
               = rxSequence ?p' + word_of_nat (length (received evs))
             \<and> (\<forall>b \<in> set (received evs). sha512 (Data b) = Hash b)"
          proof (rule Cons.IH)
            show "length (errors ?p') < 10240"
              using Cons.prems(1) by simp
            show "errors (fst (verifier_loop sha512 t ?p' evs)) = errors ?p'"
              using Cons.prems(2) unfolding step by simp
          qed
          have shift: "map (\<lambda>i. rxSequence p + word_of_nat i) [0..<Suc n]
              = rxSequence p # map (\<lambda>i. rxSequence p + 1 + word_of_nat i) [0..<n]" for n
            by (simp only: upt_conv_Cons [of 0 "Suc n"] map_Suc_upt [symmetric])
               (simp add: comp_def add.assoc del: upt_Suc)
          show ?thesis
            using ih seq True unfolding step ev
            by (simp add: shift add.assoc del: upt_Suc)
        qed
      qed
    qed
  qed
qed

lemma unat_of_nat_upt:
  assumes "n \<le> 2 ^ 32"
  shows "map (\<lambda>i. unat (word_of_nat i :: 32 word)) [0..<n] = [0..<n]"
proof -
  have "unat (word_of_nat i :: 32 word) = i" if "i \<in> set [0..<n]" for i
    using that assms by (simp add: unat_of_nat)
  then show ?thesis
    by (rule map_idI)
qed

lemma verifier_loop_append_timeout:
  "verifier_loop sha512 t p (evs @ TimeAfter now # rest) =
     (case verifier_loop sha512 t p evs of
        (p', Running) \<Rightarrow> verifier_iter sha512 t p' (TimeAfter now)
      | (p', st) \<Rightarrow> (p', st))"
proof (induction evs arbitrary: p)
  case Nil
  show ?case by simp
next
  case (Cons ev evs)
  obtain p' st where it: "verifier_iter sha512 t p ev = (p', st)"
    by (cases "verifier_iter sha512 t p ev")
  show ?case
    using Cons.IH [of p'] by (cases st) (simp_all add: it del: verifier_iter.simps)
qed

lemma verifier_result:
  "errors (fst (verifier sha512 t p evs))
     = errors (fst (verifier_loop sha512 t (log_add p (LogDebug ''started'')) evs))"
  "peer_closed (fst (verifier sha512 t p evs))
     = peer_closed (fst (verifier_loop sha512 t (log_add p (LogDebug ''started'')) evs))"
  "rxSequence (fst (verifier sha512 t p evs))
     = rxSequence (fst (verifier_loop sha512 t (log_add p (LogDebug ''started'')) evs))"
  "snd (verifier sha512 t p evs)
     = snd (verifier_loop sha512 t (log_add p (LogDebug ''started'')) evs)"
  by (simp_all add: verifier_def log_add_fields split: prod.splits status.splits)

lemma run_result_errors:
  "errors p = errors q \<Longrightarrow> fst (run_result p) = fst (run_result q)"
  by (simp add: run_result_def)

section \<open>The claims about the Verifier\<close>

text \<open>
  C1. The claim: when the Verifier receives no block within the receive-idle timeout,
  \<open>run\<close> returns a non-nil timeout error. In the code the timer branch of the Verifier
  only writes a log entry and returns: whatever the Verifier has seen before, the firing of
  the timer leaves the channel of errors and the connection as they were, so the result
  that \<open>run\<close> takes from the channel of errors is what it would be without the timeout,
  and it is nil when nothing else went wrong.
\<close>

theorem verifier_timeout_is_only_logged:
  "errors (fst (verifier sha512 t p (evs @ TimeAfter now # rest)))
     = errors (fst (verifier sha512 t p evs))
   \<and> peer_closed (fst (verifier sha512 t p (evs @ TimeAfter now # rest)))
     = peer_closed (fst (verifier sha512 t p evs))
   \<and> fst (run_result (fst (verifier sha512 t p (evs @ TimeAfter now # rest))))
     = fst (run_result (fst (verifier sha512 t p evs)))
   \<and> snd (verifier sha512 t (newProtocol None) [TimeAfter now]) = Returned
   \<and> fst (run_result (fst (verifier sha512 t (newProtocol None) [TimeAfter now]))) = None"
proof -
  let ?p0 = "log_add p (LogDebug ''started'')"
  obtain p' st where l: "verifier_loop sha512 t ?p0 evs = (p', st)"
    by (cases "verifier_loop sha512 t ?p0 evs")
  have e: "errors (fst (verifier_loop sha512 t ?p0 (evs @ TimeAfter now # rest))) = errors p'"
    and c: "peer_closed (fst (verifier_loop sha512 t ?p0 (evs @ TimeAfter now # rest))) = peer_closed p'"
    unfolding verifier_loop_append_timeout l by (cases st; simp add: log_add_fields)+
  have 1: "errors (fst (verifier sha512 t p (evs @ TimeAfter now # rest)))
      = errors (fst (verifier sha512 t p evs))"
    by (simp only: verifier_result e l fst_conv)
  have 2: "peer_closed (fst (verifier sha512 t p (evs @ TimeAfter now # rest)))
      = peer_closed (fst (verifier sha512 t p evs))"
    by (simp only: verifier_result c l fst_conv)
  have 3: "fst (run_result (fst (verifier sha512 t p (evs @ TimeAfter now # rest))))
      = fst (run_result (fst (verifier sha512 t p evs)))"
    using 1 by (rule run_result_errors)
  have 4: "snd (verifier sha512 t (newProtocol None) [TimeAfter now]) = Returned"
    by (simp add: verifier_result)
  have 5: "fst (run_result (fst (verifier sha512 t (newProtocol None) [TimeAfter now]))) = None"
    by (simp add: run_result_def verifier_result log_add_fields newProtocol_def)
  from 1 2 3 4 5 show ?thesis by simp
qed


text \<open>
  C2. When the Verifier, started with its counter at 0, reports no error on the events
  given to it, the blocks that reached it carried the sequence numbers
  \<open>0, 1, \<dots>, N - 1\<close> in that order, and its counter stands at \<open>N\<close>: the counter
  is advanced by one for each accepted block. (The numbers are those of 32-bit words;
  they are the natural numbers \<open>0, \<dots>, N - 1\<close> as long as \<open>N \<le> 2^32\<close>, and a run
  delivers fewer than \<open>2^31\<close> blocks, its receive total being an \<open>int32\<close>.) A block whose
  sequence number differs from the counter makes the Verifier send a sequence error,
  close the connection and return.
\<close>

theorem verifier_accepts_in_sequence:
  assumes "rxSequence p = 0" and "length (errors p) < 10240"
    and "errors (fst (verifier sha512 t p evs)) = errors p"
  shows "map Sequence (received evs) = map word_of_nat [0..<length (received evs)]
    \<and> (length (received evs) \<le> 2 ^ 32 \<longrightarrow>
          map (\<lambda>b. unat (Sequence b)) (received evs) = [0..<length (received evs)])
    \<and> rxSequence (fst (verifier sha512 t p evs)) = word_of_nat (length (received evs))
    \<and> (\<forall>q b rest. Sequence b \<noteq> rxSequence q \<and> length (errors q) < 10240 \<longrightarrow>
          snd (verifier sha512 t q (Recv (Some b) # rest)) = Returned
          \<and> errors (fst (verifier sha512 t q (Recv (Some b) # rest)))
              = errors q @ [SequenceMismatch (rxSequence q) (Sequence b)]
          \<and> peer_closed (fst (verifier sha512 t q (Recv (Some b) # rest)))
          \<and> rxSequence (fst (verifier sha512 t q (Recv (Some b) # rest))) = rxSequence q)"
proof -
  let ?p0 = "log_add p (LogDebug ''started'')"
  have room: "length (errors ?p0) < 10240"
    using assms(2) by (simp add: log_add_fields)
  have quiet: "errors (fst (verifier_loop sha512 t ?p0 evs)) = errors ?p0"
    using assms(3) by (simp add: verifier_result log_add_fields)
  note inv = verifier_loop_no_error [OF room quiet]
  have zero: "rxSequence ?p0 = 0"
    using assms(1) by (simp add: log_add_fields)
  have a: "map Sequence (received evs) = map word_of_nat [0..<length (received evs)]"
    using inv unfolding zero by simp
  have b: "map (\<lambda>b. unat (Sequence b)) (received evs) = [0..<length (received evs)]"
    if "length (received evs) \<le> 2 ^ 32"
  proof -
    have "map (\<lambda>b. unat (Sequence b)) (received evs) = map unat (map Sequence (received evs))"
      by simp
    also have "\<dots> = map (\<lambda>i. unat (word_of_nat i :: 32 word)) [0..<length (received evs)]"
      unfolding a by simp
    also have "\<dots> = [0..<length (received evs)]"
      using that by (rule unat_of_nat_upt)
    finally show ?thesis .
  qed
  have c: "rxSequence (fst (verifier sha512 t p evs)) = word_of_nat (length (received evs))"
    using inv unfolding zero by (simp add: verifier_result)
  have d: "snd (verifier sha512 t q (Recv (Some b) # rest)) = Returned
      \<and> errors (fst (verifier sha512 t q (Recv (Some b) # rest)))
          = errors q @ [SequenceMismatch (rxSequence q) (Sequence b)]
      \<and> peer_closed (fst (verifier sha512 t q (Recv (Some b) # rest)))
      \<and> rxSequence (fst (verifier sha512 t q (Recv (Some b) # rest))) = rxSequence q"
    if "Sequence b \<noteq> rxSequence q" "length (errors q) < 10240" for q b rest
  proof -
    let ?q0 = "log_add q (LogDebug ''started'')"
    have "Sequence b \<noteq> rxSequence ?q0" "length (errors ?q0) < 10240"
      using that by (simp_all add: log_add_fields)
    then show ?thesis
      using verifier_iter_bad_sequence [of b ?q0 sha512 t]
      by (simp add: verifier_result log_add_fields close_peer_fields del: verifier_iter.simps)
  qed
  from a b c d show ?thesis by blast
qed

theorem verifier_accepts_in_sequence_witness:
  "rxSequence (newProtocol None) = 0 \<and> length (errors (newProtocol None)) < 10240
   \<and> errors (fst (verifier same_bytes example_test (newProtocol None)
        [Recv (Some (example_block 0 BlockTypePlain 0)),
         Recv (Some (example_block 1 BlockTypeLatencyRequest 7)), Recv None]))
       = errors (newProtocol None)
   \<and> map (\<lambda>b. unat (Sequence b))
        [example_block 0 BlockTypePlain 0, example_block 1 BlockTypeLatencyRequest 7] = [0, 1]
   \<and> rxSequence (fst (verifier same_bytes example_test (newProtocol None)
        [Recv (Some (example_block 0 BlockTypePlain 0)),
         Recv (Some (example_block 1 BlockTypeLatencyRequest 7)), Recv None])) = 2
   \<and> errors (fst (verifier same_bytes example_test (newProtocol None)
        [Recv (Some (example_block 0 BlockTypePlain 0)),
         Recv (Some (example_block 2 BlockTypePlain 0)),
         Recv (Some (example_block 1 BlockTypePlain 0))]))
       = [SequenceMismatch 1 2]"
proof -
  let ?evs = "[Recv (Some (example_block 0 BlockTypePlain 0)),
         Recv (Some (example_block 1 BlockTypeLatencyRequest 7)), Recv None]"
  let ?p = "newProtocol None"
  have h1: "rxSequence ?p = 0" and h2: "length (errors ?p) < 10240"
    by (simp_all add: newProtocol_def)
  have h3: "errors (fst (verifier same_bytes example_test ?p ?evs)) = errors ?p"
    by (simp add: verifier_result newProtocol_def log_add_def example_block_def same_bytes_def)
  note t = verifier_accepts_in_sequence [of ?p same_bytes example_test ?evs, OF h1 h2 h3]
  have r: "received ?evs = [example_block 0 BlockTypePlain 0, example_block 1 BlockTypeLatencyRequest 7]"
    by simp
  have n: "length (received ?evs) \<le> 2 ^ 32"
    by simp
  from t n have "map (\<lambda>b. unat (Sequence b)) (received ?evs) = [0..<length (received ?evs)]"
    by blast
  then have c1: "map (\<lambda>b. unat (Sequence b))
        [example_block 0 BlockTypePlain 0, example_block 1 BlockTypeLatencyRequest 7] = [0, 1]"
    unfolding r by (simp add: upt_rec)
  from t have "rxSequence (fst (verifier same_bytes example_test ?p ?evs))
      = word_of_nat (length (received ?evs))"
    by blast
  then have c2: "rxSequence (fst (verifier same_bytes example_test ?p ?evs)) = 2"
    unfolding r by simp
  let ?q = "fst (verifier_loop same_bytes example_test (newProtocol None)
        [Recv (Some (example_block 0 BlockTypePlain 0))])"
  have c3: "errors (fst (verifier same_bytes example_test (newProtocol None)
        [Recv (Some (example_block 0 BlockTypePlain 0)),
         Recv (Some (example_block 2 BlockTypePlain 0)),
         Recv (Some (example_block 1 BlockTypePlain 0))]))
       = [SequenceMismatch 1 2]"
    by (simp add: verifier_result newProtocol_def log_add_def example_block_def same_bytes_def
          send_error_def close_peer_def Let_def)
  from h1 h2 h3 c1 c2 c3 show ?thesis by simp
qed


text \<open>
  C3. A block is accepted only if the digest recomputed over its payload equals the hash
  it carries. A received block for which the two differ makes the Verifier send an error
  (the hash error when the sequence number is the expected one, the sequence error
  otherwise), close the shared connection and return, with its counter unchanged; the
  events after that block play no part, so no further block is verified. (The send needs
  room in the channel of errors, which holds 10240.)
\<close>

theorem verifier_hash_mismatch_is_fatal:
  assumes "sha512 (Data b) \<noteq> Hash b" and "length (errors p) < 10240"
  shows "verifier sha512 t p (Recv (Some b) # rest) = verifier sha512 t p [Recv (Some b)]
    \<and> snd (verifier sha512 t p (Recv (Some b) # rest)) = Returned
    \<and> errors (fst (verifier sha512 t p (Recv (Some b) # rest)))
        = errors p @ [if Sequence b = rxSequence p then MismatchedHashes
                      else SequenceMismatch (rxSequence p) (Sequence b)]
    \<and> peer_closed (fst (verifier sha512 t p (Recv (Some b) # rest)))
    \<and> rxSequence (fst (verifier sha512 t p (Recv (Some b) # rest))) = rxSequence p
    \<and> (\<forall>q b'. snd (verifier_iter sha512 t q (Recv (Some b'))) = Running \<longrightarrow>
          sha512 (Data b') = Hash b')"
proof -
  let ?p0 = "log_add p (LogDebug ''started'')"
  let ?e = "if Sequence b = rxSequence p then MismatchedHashes
            else SequenceMismatch (rxSequence p) (Sequence b)"
  have room: "length (errors ?p0) < 10240"
    using assms(2) by (simp add: log_add_fields)
  have it: "verifier_iter sha512 t ?p0 (Recv (Some b))
      = (log_add (close_peer (?p0\<lparr>errors := errors ?p0 @ [?e]\<rparr>)) (LogErr ?e), Returned)"
  proof (cases "Sequence b = rxSequence p")
    case True
    then have "Sequence b = rxSequence ?p0" by (simp add: log_add_fields)
    from verifier_iter_bad_hash [of b ?p0 sha512 t, OF this assms(1) room] True
    show ?thesis by (simp add: log_add_fields del: verifier_iter.simps)
  next
    case False
    then have "Sequence b \<noteq> rxSequence ?p0" by (simp add: log_add_fields)
    from verifier_iter_bad_sequence [of b ?p0 sha512 t, OF this room] False
    show ?thesis by (simp add: log_add_fields del: verifier_iter.simps)
  qed
  have loop: "verifier_loop sha512 t ?p0 (Recv (Some b) # evs)
      = (log_add (close_peer (?p0\<lparr>errors := errors ?p0 @ [?e]\<rparr>)) (LogErr ?e), Returned)" for evs
    by (simp add: it del: verifier_iter.simps)
  have 1: "verifier sha512 t p (Recv (Some b) # rest) = verifier sha512 t p [Recv (Some b)]"
    unfolding verifier_def loop ..
  have 2: "snd (verifier sha512 t p (Recv (Some b) # rest)) = Returned"
    unfolding verifier_result loop by simp
  have 3: "errors (fst (verifier sha512 t p (Recv (Some b) # rest))) = errors p @ [?e]"
    unfolding verifier_result loop by (simp add: log_add_fields close_peer_fields)
  have 4: "peer_closed (fst (verifier sha512 t p (Recv (Some b) # rest)))"
    unfolding verifier_result loop by (simp add: log_add_fields close_peer_fields)
  have 5: "rxSequence (fst (verifier sha512 t p (Recv (Some b) # rest))) = rxSequence p"
    unfolding verifier_result loop by (simp add: log_add_fields close_peer_fields)
  have 6: "sha512 (Data b') = Hash b'"
    if "snd (verifier_iter sha512 t q (Recv (Some b'))) = Running" for q b'
    using that unfolding verifier_iter_Running by simp
  from 1 2 3 4 5 6 show ?thesis by blast
qed

theorem verifier_hash_mismatch_is_fatal_witness:
  "same_bytes (Data (corrupt_block 0)) \<noteq> Hash (corrupt_block 0)
   \<and> length (errors (newProtocol None)) < 10240
   \<and> snd (verifier same_bytes example_test (newProtocol None)
        [Recv (Some (corrupt_block 0)), Recv (Some (example_block 1 BlockTypePlain 0))]) = Returned
   \<and> errors (fst (verifier same_bytes example_test (newProtocol None)
        [Recv (Some (corrupt_block 0)), Recv (Some (example_block 1 BlockTypePlain 0))]))
       = [MismatchedHashes]
   \<and> peer_closed (fst (verifier same_bytes example_test (newProtocol None)
        [Recv (Some (corrupt_block 0)), Recv (Some (example_block 1 BlockTypePlain 0))]))
   \<and> rxSequence (fst (verifier same_bytes example_test (newProtocol None)
        [Recv (Some (corrupt_block 0)), Recv (Some (example_block 1 BlockTypePlain 0))])) = 0
   \<and> snd (verifier_iter same_bytes example_test (newProtocol None)
        (Recv (Some (example_block 0 BlockTypePlain 0)))) = Running"
proof -
  have h1: "same_bytes (Data (corrupt_block 0)) \<noteq> Hash (corrupt_block 0)"
    by (simp add: same_bytes_def corrupt_block_def)
  have h2: "length (errors (newProtocol None)) < 10240"
    by (simp add: newProtocol_def)
  note t = verifier_hash_mismatch_is_fatal [of same_bytes "corrupt_block 0" "newProtocol None"
      example_test "[Recv (Some (example_block 1 BlockTypePlain 0))]", OF h1 h2]
  have s: "Sequence (corrupt_block 0) = rxSequence (newProtocol None)"
    "errors (newProtocol None) = []" "rxSequence (newProtocol None) = 0"
    by (simp_all add: corrupt_block_def newProtocol_def)
  have r: "snd (verifier_iter same_bytes example_test (newProtocol None)
        (Recv (Some (example_block 0 BlockTypePlain 0)))) = Running"
    by (simp add: newProtocol_def example_block_def same_bytes_def)
  let ?v = "verifier same_bytes example_test (newProtocol None)
        [Recv (Some (corrupt_block 0)), Recv (Some (example_block 1 BlockTypePlain 0))]"
  from t have a: "snd ?v = Returned" by (elim conjE)
  from t have "errors (fst ?v) = errors (newProtocol None) @
      [if Sequence (corrupt_block 0) = rxSequence (newProtocol None) then MismatchedHashes
       else SequenceMismatch (rxSequence (newProtocol None)) (Sequence (corrupt_block 0))]"
    by (elim conjE)
  then have b: "errors (fst ?v) = [MismatchedHashes]"
    by (simp add: s)
  from t have c: "peer_closed (fst ?v)" by (elim conjE)
  from t have "rxSequence (fst ?v) = rxSequence (newProtocol None)" by (elim conjE)
  then have d: "rxSequence (fst ?v) = 0" by (simp add: s)
  from h1 h2 a b c d r show ?thesis
    by (intro conjI)
qed

section \<open>Facts about the Receive Loop and the Transmit Loop\<close>

lemma rxer_iter_block:
  "rxer_iter t p (RxBlock (Inr block) now) =
     ((if Type block = BlockTypeLatencyRequest then
         (if length (latencies p) < 1024
          then p\<lparr>latencies := latencies p @ [Timestamp block]\<rparr>
          else log_add p (LogWarn ''latency channel out of room''))
       else p)
      \<lparr>rxCount := rxCount p + 1, lastRx := now, rxBlocks := rxBlocks p @ [block]\<rparr>, Running)"
  by (simp add: Let_def log_add_def)

lemma rxer_loop_goes_on:
  assumes "rxCount p <s RxRequests t" and "rxer_iter t p ev = (p', Running)"
  shows "rxer_loop t p (ev # evs) = rxer_loop t p' evs"
  using assms by simp

lemma Intn_range: "0 < n \<Longrightarrow> 0 \<le> Intn r n \<and> Intn r n < n"
  by (simp add: Intn_def)

lemma Intn_onto: "0 \<le> j \<Longrightarrow> j < n \<Longrightarrow> Intn (nat j) n = j"
  by (simp add: Intn_def)

lemma sint32_less: "sint (w :: 32 word) < 2147483648"
  using sint_lt [of w] by simp

lemma Sub_small:
  assumes "a - b \<le> 4294967296 * Millisecond" and "0 \<le> a - b"
  shows "Sub a b = a - b"
  using assms by (simp add: Sub_def Millisecond_def)

lemma txer_iter_sent:
  "txer_iter t (p, l) (Generated (Some block) r now None) =
     ((snd (latency_echo p block)\<lparr>txCount := txCount (snd (latency_echo p block)) + 1\<rparr>,
       pacing t l r now\<lparr>actions := actions (pacing t l r now) @ [Tx (fst (latency_echo p block))]\<rparr>),
      Running)"
  by (simp add: Let_def split: prod.splits)

section \<open>The claims about the Transmit Loop and the Receive Loop\<close>

text \<open>
  C7. With a pacing interval above 0, the Transmit Loop computes, before it sends, the
  instant \<open>nextSend = lastSend + (TxPacing + jitter)\<close> milliseconds, with a jitter that is
  0 or drawn from \<open>[0, TxMaxJitter)\<close>. If that instant is after the current time it
  sleeps for the difference and \<open>lastSend\<close> becomes that instant; otherwise it does not
  sleep and \<open>lastSend\<close> becomes the current time. So \<open>lastSend\<close> is never left behind
  the current time, and when \<open>lastSend\<close> was not ahead of the clock the sleep is at most
  one interval with its jitter: a loop that runs behind does not accumulate delay. The
  block is handed to \<open>block.Tx\<close> right after.
\<close>

theorem pacing_follows_schedule:
  assumes "0 < sint (TxPacing t)"
  shows "\<exists>jitter nextSend.
      0 \<le> jitter \<and> (0 < sint (TxMaxJitter t) \<longrightarrow> jitter < sint (TxMaxJitter t))
    \<and> (sint (TxMaxJitter t) \<le> 0 \<longrightarrow> jitter = 0)
    \<and> nextSend = lastSend l + (sint (TxPacing t) + jitter) * Millisecond
    \<and> (now < nextSend \<longrightarrow>
          pacing t l r now = l\<lparr>actions := actions l @ [Sleep (Sub nextSend now)], lastSend := nextSend\<rparr>)
    \<and> (now < nextSend \<and> lastSend l \<le> now \<longrightarrow>
          Sub nextSend now = nextSend - now
          \<and> nextSend - now \<le> (sint (TxPacing t) + jitter) * Millisecond)
    \<and> (nextSend \<le> now \<longrightarrow> pacing t l r now = l\<lparr>lastSend := now\<rparr>)
    \<and> now \<le> lastSend (pacing t l r now)
    \<and> actions (snd (fst (txer_iter t (p, l) (Generated (Some block) r now None))))
        = actions (pacing t l r now) @ [Tx (fst (latency_echo p block))]
    \<and> lastSend (snd (fst (txer_iter t (p, l) (Generated (Some block) r now None))))
        = lastSend (pacing t l r now)"
proof -
  define jitter where "jitter = (if 0 < sint (TxMaxJitter t) then Intn r (sint (TxMaxJitter t)) else 0)"
  define nextSend where "nextSend = lastSend l + (sint (TxPacing t) + jitter) * Millisecond"
  have j0: "0 \<le> jitter" and j1: "0 < sint (TxMaxJitter t) \<longrightarrow> jitter < sint (TxMaxJitter t)"
    and j2: "sint (TxMaxJitter t) \<le> 0 \<longrightarrow> jitter = 0"
    using Intn_range [of "sint (TxMaxJitter t)" r] by (auto simp add: jitter_def)
  have later: "pacing t l r now = l\<lparr>actions := actions l @ [Sleep (Sub nextSend now)], lastSend := nextSend\<rparr>"
    if "now < nextSend"
    using that assms by (simp add: pacing_def Let_def jitter_def nextSend_def)
  have behind: "pacing t l r now = l\<lparr>lastSend := now\<rparr>" if "nextSend \<le> now"
    using that assms by (simp add: pacing_def Let_def jitter_def nextSend_def)
  have bounded: "Sub nextSend now = nextSend - now
      \<and> nextSend - now \<le> (sint (TxPacing t) + jitter) * Millisecond"
    if "now < nextSend" "lastSend l \<le> now"
  proof -
    have le: "nextSend - now \<le> (sint (TxPacing t) + jitter) * Millisecond"
      using that(2) by (simp add: nextSend_def)
    have "jitter < 2147483648"
      using j1 j2 sint32_less [of "TxMaxJitter t"] by (cases "0 < sint (TxMaxJitter t)") auto
    then have "sint (TxPacing t) + jitter \<le> 4294967296"
      using sint32_less [of "TxPacing t"] by simp
    then have "(sint (TxPacing t) + jitter) * Millisecond \<le> 4294967296 * Millisecond"
      by (simp add: Millisecond_def)
    with le have "nextSend - now \<le> 4294967296 * Millisecond"
      by linarith
    moreover have "0 \<le> nextSend - now"
      using that(1) by simp
    ultimately have "Sub nextSend now = nextSend - now"
      by (rule Sub_small)
    with le show ?thesis by simp
  qed
  have ahead: "now \<le> lastSend (pacing t l r now)"
  proof (cases "now < nextSend")
    case True
    then show ?thesis by (simp add: later)
  next
    case False
    then show ?thesis by (simp add: behind)
  qed
  have sent: "actions (snd (fst (txer_iter t (p, l) (Generated (Some block) r now None))))
        = actions (pacing t l r now) @ [Tx (fst (latency_echo p block))]"
    and kept: "lastSend (snd (fst (txer_iter t (p, l) (Generated (Some block) r now None))))
        = lastSend (pacing t l r now)"
    by (simp_all add: txer_iter_sent del: txer_iter.simps)
  from j0 j1 j2 later behind bounded ahead sent kept nextSend_def show ?thesis
    by blast
qed


theorem pacing_follows_schedule_witness:
  "0 < sint (TxPacing example_test)
   \<and> pacing example_test \<lparr>lastSend = 1000000000, actions = []\<rparr> 7 1005000000
       = \<lparr>lastSend = 1012000000, actions = [Sleep 7000000]\<rparr>
   \<and> pacing example_test \<lparr>lastSend = 1000000000, actions = []\<rparr> 7 2000000000
       = \<lparr>lastSend = 2000000000, actions = []\<rparr>
   \<and> 1005000000 \<le> lastSend (pacing example_test \<lparr>lastSend = 1000000000, actions = []\<rparr> 7 1005000000)
   \<and> 2000000000 \<le> lastSend (pacing example_test \<lparr>lastSend = 1000000000, actions = []\<rparr> 7 2000000000)"
proof -
  let ?l = "\<lparr>lastSend = 1000000000, actions = []\<rparr>"
  have h: "0 < sint (TxPacing example_test)"
    by (simp add: example_test_def)
  have a: "pacing example_test ?l 7 1005000000 = \<lparr>lastSend = 1012000000, actions = [Sleep 7000000]\<rparr>"
    by (simp add: pacing_def example_test_def Intn_def Millisecond_def Sub_def Let_def)
  have b: "pacing example_test ?l 7 2000000000 = \<lparr>lastSend = 2000000000, actions = []\<rparr>"
    by (simp add: pacing_def example_test_def Intn_def Millisecond_def Sub_def Let_def)
  from pacing_follows_schedule [OF h, of ?l 1005000000 7 "newProtocol None" "example_block 0 BlockTypePlain 0"]
  have c: "1005000000 \<le> lastSend (pacing example_test ?l 7 1005000000)"
    by blast
  from pacing_follows_schedule [OF h, of ?l 2000000000 7 "newProtocol None" "example_block 0 BlockTypePlain 0"]
  have d: "2000000000 \<le> lastSend (pacing example_test ?l 7 2000000000)"
    by blast
  from h a b c d show ?thesis
    by (intro conjI)
qed



text \<open>
  C9. When the Receive Loop reads a LatencyRequest while the queue of latencies holds its
  1024 timestamps, the timestamp is dropped and a warning is logged: the queue and the
  channel of errors are as before, the receive counter is advanced, the block is handed
  to the Verifier like any other, and the loop goes on with the next read.
\<close>

theorem rxer_drops_latency_when_full:
  assumes "Type block = BlockTypeLatencyRequest" and "length (latencies p) = 1024"
  shows "snd (rxer_iter t p (RxBlock (Inr block) now)) = Running
    \<and> latencies (fst (rxer_iter t p (RxBlock (Inr block) now))) = latencies p
    \<and> errors (fst (rxer_iter t p (RxBlock (Inr block) now))) = errors p
    \<and> logged (fst (rxer_iter t p (RxBlock (Inr block) now)))
        = logged p @ [LogWarn ''latency channel out of room'']
    \<and> rxCount (fst (rxer_iter t p (RxBlock (Inr block) now))) = rxCount p + 1
    \<and> rxBlocks (fst (rxer_iter t p (RxBlock (Inr block) now))) = rxBlocks p @ [block]
    \<and> (rxCount p <s RxRequests t \<longrightarrow>
          rxer_loop t p (RxBlock (Inr block) now # evs)
            = rxer_loop t (fst (rxer_iter t p (RxBlock (Inr block) now))) evs)"
proof -
  let ?r = "rxer_iter t p (RxBlock (Inr block) now)"
  have eq: "?r = ((log_add p (LogWarn ''latency channel out of room''))
      \<lparr>rxCount := rxCount p + 1, lastRx := now, rxBlocks := rxBlocks p @ [block]\<rparr>, Running)"
    using assms unfolding rxer_iter_block by simp
  have 1: "snd ?r = Running" and 2: "latencies (fst ?r) = latencies p"
    and 3: "errors (fst ?r) = errors p"
    and 4: "logged (fst ?r) = logged p @ [LogWarn ''latency channel out of room'']"
    and 5: "rxCount (fst ?r) = rxCount p + 1" and 6: "rxBlocks (fst ?r) = rxBlocks p @ [block]"
    unfolding eq by (simp_all add: log_add_def)
  have 7: "rxer_loop t p (RxBlock (Inr block) now # evs) = rxer_loop t (fst ?r) evs"
    if "rxCount p <s RxRequests t"
    using that unfolding eq by (simp add: Let_def log_add_def assms)
  from 1 2 3 4 5 6 7 show ?thesis by blast
qed


theorem rxer_drops_latency_when_full_witness:
  "Type (example_block 3 BlockTypeLatencyRequest 77) = BlockTypeLatencyRequest
   \<and> length (latencies (newProtocol None\<lparr>latencies := replicate 1024 5\<rparr>)) = 1024
   \<and> rxCount (newProtocol None\<lparr>latencies := replicate 1024 5\<rparr>) <s RxRequests example_test
   \<and> snd (rxer_iter example_test (newProtocol None\<lparr>latencies := replicate 1024 5\<rparr>)
         (RxBlock (Inr (example_block 3 BlockTypeLatencyRequest 77)) 1000)) = Running
   \<and> latencies (fst (rxer_iter example_test (newProtocol None\<lparr>latencies := replicate 1024 5\<rparr>)
         (RxBlock (Inr (example_block 3 BlockTypeLatencyRequest 77)) 1000))) = replicate 1024 5
   \<and> errors (fst (rxer_iter example_test (newProtocol None\<lparr>latencies := replicate 1024 5\<rparr>)
         (RxBlock (Inr (example_block 3 BlockTypeLatencyRequest 77)) 1000))) = []
   \<and> logged (fst (rxer_iter example_test (newProtocol None\<lparr>latencies := replicate 1024 5\<rparr>)
         (RxBlock (Inr (example_block 3 BlockTypeLatencyRequest 77)) 1000)))
       = [LogWarn ''latency channel out of room'']
   \<and> snd (rxer_loop example_test (newProtocol None\<lparr>latencies := replicate 1024 5\<rparr>)
         [RxBlock (Inr (example_block 3 BlockTypeLatencyRequest 77)) 1000]) = Running"
proof -
  let ?req = "example_block 3 BlockTypeLatencyRequest 77"
  let ?p = "newProtocol None\<lparr>latencies := replicate 1024 5\<rparr>"
  let ?r = "rxer_iter example_test ?p (RxBlock (Inr ?req) 1000)"
  have h1: "Type ?req = BlockTypeLatencyRequest"
    by (simp add: example_block_def)
  have h2: "length (latencies ?p) = 1024"
    by simp
  have h3: "rxCount ?p <s RxRequests example_test"
    by (simp add: newProtocol_def example_test_def word_sless_alt)
  note t = rxer_drops_latency_when_full [OF h1 h2, of example_test 1000 "[]"]
  from t have a: "snd ?r = Running" by (elim conjE)
  from t have "latencies (fst ?r) = latencies ?p" by (elim conjE)
  then have b: "latencies (fst ?r) = replicate 1024 5" by simp
  from t have "errors (fst ?r) = errors ?p" by (elim conjE)
  then have c: "errors (fst ?r) = []" by (simp add: newProtocol_def)
  from t have "logged (fst ?r) = logged ?p @ [LogWarn ''latency channel out of room'']"
    by (elim conjE)
  then have d: "logged (fst ?r) = [LogWarn ''latency channel out of room'']"
    by (simp add: newProtocol_def)
  from t h3 have l: "rxer_loop example_test ?p [RxBlock (Inr ?req) 1000]
      = rxer_loop example_test (fst ?r) []"
    by blast
  from t have "rxCount (fst ?r) = rxCount ?p + 1" by (elim conjE)
  then have "rxCount (fst ?r) = 1" by (simp add: newProtocol_def)
  then have "rxCount (fst ?r) <s RxRequests example_test"
    by (simp add: example_test_def word_sless_alt)
  then have e: "snd (rxer_loop example_test ?p [RxBlock (Inr ?req) 1000]) = Running"
    unfolding l by simp
  from h1 h2 h3 a b c d e show ?thesis
    by (intro conjI)
qed

section \<open>The claim about the edge router configuration command\<close>

text \<open>
  With both flags set \<open>run\<close> does nothing but write the fatal log entry: no output file
  is created and no configuration is written. What its caller gets depends on the exit
  function of the logger: the error of the \<open>return\<close> that follows \<open>logrus.Fatal\<close> is
  returned only if that function comes back; with the default one the process has ended
  with status 1 before.
\<close>

lemma run_both_flags:
  assumes "IsPrivate options" and "WssEnabled options"
  shows "fst (run env options) =
      [Fatal ''Flags for private and wss configs are mutually exclusive. You must choose private or wss, not both'']
    \<and> (\<forall>e \<in> set (fst (run env options)). \<not> writes_output e)
    \<and> snd (run env options)
        = (if exit_ends_process env then Exit 1 else Return (Some MutuallyExclusive))
    \<and> (reports_error (snd (run env options)) \<longleftrightarrow> \<not> exit_ends_process env)"
  using assms by (simp add: run_def)

text \<open>
  C10. The claim: when both private and wss are requested, \<open>run\<close> reports an error to
  its caller and writes no configuration output. With both flags set and the logger as it
  is by default, \<open>run\<close> writes nothing but the fatal log entry, and it does not return:
  \<open>logrus.Fatal\<close> ends the process with status 1, and the \<open>return\<close> of the error, the
  next statement of the source, is never reached, so the caller is given no error.
\<close>

theorem run_both_flags_does_not_return:
  "run example_env both_flags =
     ([Fatal ''Flags for private and wss configs are mutually exclusive. You must choose private or wss, not both''],
      Exit 1)
   \<and> \<not> reports_error (snd (run example_env both_flags))
   \<and> reports_error (snd (run (example_env\<lparr>exit_ends_process := False\<rparr>) both_flags))"
  by (simp add: run_def both_flags_def example_env_def)

text \<open>
  For comparison, with at most one of the flags set and the output on \<open>stdout\<close>, the same
  environment lets \<open>run\<close> write the configuration and return nil.
\<close>

lemma run_one_flag_writes:
  "run example_env (both_flags\<lparr>WssEnabled := False\<rparr>) =
     ([ExecuteTemplate Stdout,
       Debugf ''Edge Router configuration generated successfully and written to: stdout'',
       CloseFile Stdout],
      Return None)"
  by (simp add: run_def execute_and_close_def example_env_def both_flags_def)

section \<open>How many blocks a run delivers\<close>

text \<open>
  The receive counter is an \<open>int32\<close> that the loop advances only while it is below
  \<open>RxRequests\<close>, so the increment never wraps.
\<close>

lemma sint32_greater_eq: "- 2147483648 \<le> sint (w :: 32 word)"
  using sint_greater_eq [of w] by simp

lemma sint_Suc_below:
  assumes "(c :: 32 word) <s r"
  shows "sint (c + 1) = sint c + 1"
proof -
  have "sint c < sint r"
    using assms by (simp only: word_sless_alt)
  then have up: "sint c + 1 < 2147483648"
    using sint32_less [of r] by linarith
  have low: "- 2147483648 \<le> sint c + 1"
    using sint32_greater_eq [of c] by linarith
  have "sint (c + 1) = signed_take_bit 31 (sint c + 1)"
    by (simp add: sint_word_ariths)
  also have "\<dots> = sint c + 1"
    using low up by (intro signed_take_bit_int_eq_self) simp_all
  finally show ?thesis .
qed

lemma rxer_iter_error_rxBlocks:
  "rxBlocks (fst (rxer_iter t p (RxBlock (Inl e) now))) = rxBlocks p"
  by (simp add: send_error_def log_add_def)

text \<open>
  The Receive Loop hands over at most as many further blocks as its counter is short of
  \<open>RxRequests\<close>; from a fresh protocol that is at most \<open>RxRequests\<close>, which is below
  \<open>2^31\<close>.
\<close>

lemma rxer_loop_hands_over_at_most:
  "length (rxBlocks (fst (rxer_loop t p evs)))
     \<le> length (rxBlocks p) + nat (sint (RxRequests t) - sint (rxCount p))"
proof (induction evs arbitrary: p)
  case Nil
  show ?case by (simp add: log_add_def)
next
  case (Cons ev evs)
  show ?case
  proof (cases "rxCount p <s RxRequests t")
    case False
    then show ?thesis by (simp add: log_add_def)
  next
    case True
    obtain res now where ev: "ev = RxBlock res now"
      by (cases ev)
    show ?thesis
    proof (cases res)
      case (Inl e)
      have "snd (rxer_iter t p (RxBlock (Inl e) now)) \<noteq> Running"
        by (simp add: send_error_def)
      then have "rxer_loop t p (ev # evs) = rxer_iter t p (RxBlock (Inl e) now)"
        using True unfolding ev Inl
        by (cases "rxer_iter t p (RxBlock (Inl e) now)") (simp split: status.splits del: rxer_iter.simps)
      then show ?thesis
        by (simp add: rxer_iter_error_rxBlocks del: rxer_iter.simps)
    next
      case (Inr block)
      let ?p' = "fst (rxer_iter t p (RxBlock (Inr block) now))"
      have it: "rxer_iter t p (RxBlock (Inr block) now) = (?p', Running)"
        unfolding rxer_iter_block by simp
      have step: "rxer_loop t p (ev # evs) = rxer_loop t ?p' evs"
        unfolding ev Inr using True it by (rule rxer_loop_goes_on)
      have c: "rxCount ?p' = rxCount p + 1" and b: "rxBlocks ?p' = rxBlocks p @ [block]"
        unfolding rxer_iter_block by (simp_all add: log_add_def)
      have s: "sint (rxCount ?p') = sint (rxCount p) + 1"
        unfolding c using True by (rule sint_Suc_below)
      have lt: "sint (rxCount p) < sint (RxRequests t)"
        using True by (simp only: word_sless_alt)
      have "length (rxBlocks (fst (rxer_loop t ?p' evs)))
          \<le> length (rxBlocks ?p') + nat (sint (RxRequests t) - sint (rxCount ?p'))"
        by (rule Cons.IH)
      also have "\<dots> = length (rxBlocks p) + nat (sint (RxRequests t) - sint (rxCount p))"
        unfolding s b using lt by simp
      finally show ?thesis
        unfolding step .
    qed
  qed
qed

lemma rxer_hands_over_less_than_2_31:
  "length (rxBlocks (fst (rxer_loop t (newProtocol c) evs))) < 2 ^ 31"
proof -
  have "length (rxBlocks (fst (rxer_loop t (newProtocol c) evs)))
      \<le> nat (sint (RxRequests t))"
    using rxer_loop_hands_over_at_most [of t "newProtocol c" evs]
    by (simp add: newProtocol_def)
  moreover have "nat (sint (RxRequests t)) < 2 ^ 31"
    using sint32_less [of "RxRequests t"] by simp
  ultimately show ?thesis by linarith
qed

end
